theory Spec2Isabelle
  imports Main "HOL-Library.Word" "HOL-Library.Multiset"
begin

unbundle bit_operations_syntax

section \<open>Machine model\<close>

text \<open>
  The allocator of \<^verbatim>\<open>memory_pool.hpp\<close> stores pointers in \<^verbatim>\<open>u32\<close> variables
  (\<^verbatim>\<open>reinterpret_cast<u32>(&buffer[...])\<close>), so it is a program for a 32-bit target:
  pointers, \<^verbatim>\<open>u32\<close> and \<^verbatim>\<open>std::size_t\<close> are all 32-bit words, the null pointer is
  the word 0, and unsigned arithmetic wraps modulo \<open>2 ^ 32\<close>.

  The three classes each have an \<^verbatim>\<open>alloc\<close> and a \<^verbatim>\<open>dealloc\<close>: the functions of
  \<^verbatim>\<open>block_pool\<close>, \<^verbatim>\<open>pool_set\<close> and \<^verbatim>\<open>fixed_pool\<close> carry the prefixes \<open>bp_\<close>, \<open>ps_\<close>
  and \<open>fp_\<close>.

  Memory is an array of bytes, one for each address. A \<^verbatim>\<open>u32\<close> read or written
  through a pointer \<open>a\<close> (\<^verbatim>\<open>*next_block\<close>, \<^verbatim>\<open>*reinterpret_cast<u32*>(p) = ...\<close>,
  \<^verbatim>\<open>buffer[i] = ...\<close>) occupies the four bytes \<open>a\<close>, \<open>a + 1\<close>, \<open>a + 2\<close> and \<open>a + 3\<close>,
  least significant byte first, the byte order ARM cores run in by default. A pointer
  need not be a multiple of 4: a store through it changes exactly those four bytes,
  whichever words they are part of. The general results below do not depend on the
  byte order; only the worked examples, which spell out bytes, do.
\<close>

type_synonym u32 = "32 word"

type_synonym memory = "u32 \<Rightarrow> 8 word"

definition load32 :: "memory \<Rightarrow> u32 \<Rightarrow> u32" where
  "load32 mem a =
     ucast (mem a) OR push_bit 8 (ucast (mem (a + 1)))
       OR push_bit 16 (ucast (mem (a + 2))) OR push_bit 24 (ucast (mem (a + 3)))"

definition store32 :: "memory \<Rightarrow> u32 \<Rightarrow> u32 \<Rightarrow> memory" where
  "store32 mem a v =
     mem(a := ucast v, a + 1 := ucast (drop_bit 8 v),
         a + 2 := ucast (drop_bit 16 v), a + 3 := ucast (drop_bit 24 v))"

text \<open>The byte at address \<open>x\<close> is one of the four bytes of the word at address \<open>a\<close>.\<close>

definition in_word :: "u32 \<Rightarrow> u32 \<Rightarrow> bool" where
  "in_word a x \<longleftrightarrow> x - a < 4"

text \<open>\<^verbatim>\<open>&base[i]\<close> for a \<^verbatim>\<open>u32* base\<close>: element \<open>i\<close> lies \<open>4 * i\<close> bytes further.\<close>

definition elem_addr :: "u32 \<Rightarrow> u32 \<Rightarrow> u32" where
  "elem_addr base i = base + 4 * i"

text \<open>
  Modelled from the spec: \<^verbatim>\<open>assertion(c)\<close>, a macro of the platform layer
  (\<^verbatim>\<open>modules/platf_abs_layer/debug.hpp\<close>), "an assertion/abort primitive" that is
  "debug-only". A failed assertion is the error value of the model; whether assertions
  are compiled in is the parameter \<open>chk\<close> of the functions that assert.
\<close>

datatype error = AssertionFailed

section \<open>The fixed-size block pool (\<^verbatim>\<open>class block_pool\<close>)\<close>

record block_pool =
  block_count :: u32
  free_count :: u32
  next_block :: u32
  buffer :: u32
  end_buffer :: u32

text \<open>
  The address of block \<open>k\<close> as \<^verbatim>\<open>init\<close> computes it:
  \<^verbatim>\<open>&buffer[k * (block_size >> 2)]\<close>.
\<close>

definition block_addr :: "u32 \<Rightarrow> u32 \<Rightarrow> u32 \<Rightarrow> u32" where
  "block_addr buf block_size k = elem_addr buf (k * drop_bit 2 block_size)"

text \<open>
  The loop of \<^verbatim>\<open>init\<close>:
  \<^verbatim>\<open>for (u32 block = 0; block < (block_count - 1); ++block)
    buffer[block * (block_size >> 2)] = (u32) &buffer[(block + 1) * (block_size >> 2)];\<close>
  The bound \<^verbatim>\<open>block_count - 1\<close> is computed in \<^verbatim>\<open>u32\<close>. The memory of the model is the
  whole address space: a store that leaves the buffer, which the program must not make,
  is a store like any other here, and what is proved of \<^verbatim>\<open>init\<close> is stated for
  parameters that keep every store inside the buffer.
\<close>

function init_loop :: "u32 \<Rightarrow> u32 \<Rightarrow> u32 \<Rightarrow> u32 \<Rightarrow> memory \<Rightarrow> memory" where
  "init_loop buf block_size bcount block mem =
     (if block < bcount - 1
      then init_loop buf block_size bcount (block + 1)
             (store32 mem (block_addr buf block_size block) (block_addr buf block_size (block + 1)))
      else mem)"
  by pat_completeness auto
termination
proof (relation "measure (\<lambda>(buf, block_size, bcount, block, mem). unat (bcount - 1) - unat block)")
  show "wf (measure (\<lambda>(buf, block_size, bcount, block, mem). unat (bcount - 1) - unat block))"
    by simp
next
  fix buf block_size bcount block :: u32 and mem :: memory
  assume lt: "block < bcount - 1"
  then have "unat block < unat (bcount - 1)" by (simp add: word_less_nat_alt)
  moreover have "unat (bcount - 1) < 2 ^ LENGTH(32)"
    by (rule unsigned_less)
  ultimately have "unat block + unat (1::u32) < 2 ^ LENGTH(32)"
    by simp
  then have "unat (block + 1) = unat block + unat (1::u32)"
    by (simp only: unat_add_lem)
  with \<open>unat block < unat (bcount - 1)\<close> show "((buf, block_size, bcount, block + 1,
       store32 mem (block_addr buf block_size block) (block_addr buf block_size (block + 1))),
      (buf, block_size, bcount, block, mem))
    \<in> measure (\<lambda>(buf, block_size, bcount, block, mem). unat (bcount - 1) - unat block)"
    by simp
qed

declare init_loop.simps [simp del]

text \<open>
  \<^verbatim>\<open>init(block_size, block_count)\<close>. The backing buffer comes from the overloaded
  \<^verbatim>\<open>new (sys::pool_type::fixed) u8[block_size * block_count]\<close>, an operator defined
  outside \<^verbatim>\<open>memory_pool.hpp\<close>: the address it returns is the parameter \<open>buf\<close>.
\<close>

definition bp_init :: "u32 \<Rightarrow> u32 \<Rightarrow> u32 \<Rightarrow> block_pool \<Rightarrow> memory \<Rightarrow> block_pool \<times> memory" where
  "bp_init buf block_size bcount bp mem =
     (bp\<lparr>block_count := bcount,
         buffer := buf,
         end_buffer := buf + block_size * bcount,
         next_block := buf,
         free_count := bcount\<rparr>,
      init_loop buf block_size bcount 0 mem)"

text \<open>\<^verbatim>\<open>alloc()\<close>: the null pointer 0 when no block is free, else the head of the free list.\<close>

definition bp_alloc :: "block_pool \<Rightarrow> memory \<Rightarrow> u32 \<times> block_pool" where
  "bp_alloc bp mem =
     (if free_count bp \<le> 0 then (0, bp)
      else (next_block bp,
            bp\<lparr>next_block := load32 mem (next_block bp), free_count := free_count bp - 1\<rparr>))"

definition bp_dealloc ::
  "bool \<Rightarrow> block_pool \<Rightarrow> memory \<Rightarrow> u32 \<Rightarrow> error + block_pool \<times> memory" where
  "bp_dealloc chk bp mem p =
     (if chk \<and> \<not> free_count bp < block_count bp then Inl AssertionFailed
      else Inr (bp\<lparr>next_block := p, free_count := free_count bp + 1\<rparr>,
                store32 mem p (next_block bp)))"

definition in_range :: "block_pool \<Rightarrow> u32 \<Rightarrow> bool" where
  "in_range bp p \<longleftrightarrow> buffer bp \<le> p \<and> p < end_buffer bp"

section \<open>The pool set (\<^verbatim>\<open>class pool_set\<close>)\<close>

text \<open>
  \<open>pools\<close> is the array \<^verbatim>\<open>pools[0 .. pool_count - 1]\<close>; \<open>pools_addr\<close> is the pointer
  itself, which only \<^verbatim>\<open>release\<close> needs.
\<close>

record pool_set =
  pool_count :: u32
  pools_addr :: u32
  pools :: "block_pool list"

definition bits_set :: "u32 \<Rightarrow> u32" where
  "bits_set x0 =
     (let x1 = x0 - (drop_bit 1 x0 AND 0x55555555);
          x2 = (drop_bit 2 x1 AND 0x33333333) + (x1 AND 0x33333333);
          x3 = (drop_bit 4 x2 + x2) AND 0x0f0f0f0f;
          x4 = x3 + drop_bit 8 x3;
          x5 = x4 + drop_bit 16 x4
      in x5 AND 0x3f)"

text \<open>
  \<^verbatim>\<open>integer_log\<close>: \<open>l\<close> is an \<^verbatim>\<open>s32\<close>, so \<^verbatim>\<open>l >>= 31\<close> is the arithmetic shift, and
  the final \<^verbatim>\<open>bits_set(x >> 1) - l\<close> is computed in \<^verbatim>\<open>u32\<close>.
\<close>

definition integer_log :: "u32 \<Rightarrow> u32" where
  "integer_log x0 =
     (let l0 = x0 AND (x0 - 1);
          l1 = l0 OR (- l0);
          l2 = signed_drop_bit 31 l1;
          x1 = x0 OR drop_bit 1 x0;
          x2 = x1 OR drop_bit 2 x1;
          x3 = x2 OR drop_bit 4 x2;
          x4 = x3 OR drop_bit 8 x3;
          x5 = x4 OR drop_bit 16 x4
      in bits_set (drop_bit 1 x5) - l2)"

text \<open>
  The five bit-smearing steps of \<^verbatim>\<open>integer_log\<close> on their own (used in the proofs):
  they set every bit below the highest set bit of \<open>x0\<close>.
\<close>

definition smear :: "u32 \<Rightarrow> u32" where
  "smear x0 =
     (let x1 = x0 OR drop_bit 1 x0;
          x2 = x1 OR drop_bit 2 x1;
          x3 = x2 OR drop_bit 4 x2;
          x4 = x3 OR drop_bit 8 x3;
          x5 = x4 OR drop_bit 16 x4
      in x5)"

text \<open>\<^verbatim>\<open>(size + 3) & ~3\<close>, as both \<^verbatim>\<open>pool_set::alloc\<close> and \<^verbatim>\<open>fixed_pool::alloc\<close> write it.\<close>

definition round4 :: "u32 \<Rightarrow> u32" where
  "round4 size0 = (size0 + 3) AND NOT 3"

definition ps_alloc :: "pool_set \<Rightarrow> memory \<Rightarrow> u32 \<Rightarrow> u32 \<times> pool_set" where
  "ps_alloc ps mem size0 =
     (let size1 = round4 size0;
          pool_index = integer_log size1 - 2
      in if pool_index < pool_count ps
         then (let (p, bp') = bp_alloc (pools ps ! unat pool_index) mem
               in (p, ps\<lparr>pools := (pools ps)[unat pool_index := bp']\<rparr>))
         else (0, ps))"

text \<open>
  The loop of \<^verbatim>\<open>pool_set::dealloc\<close>:
  \<^verbatim>\<open>for (u32 pool = 0; pool < pool_count; pool++)
    if (pools[pool].in_range(p)) { pools[pool].dealloc(p); return true; }
  return false;\<close>
\<close>

function ps_dealloc_loop ::
  "bool \<Rightarrow> pool_set \<Rightarrow> memory \<Rightarrow> u32 \<Rightarrow> u32 \<Rightarrow> error + bool \<times> pool_set \<times> memory" where
  "ps_dealloc_loop chk ps mem p pool =
     (if pool < pool_count ps
      then (if in_range (pools ps ! unat pool) p
            then (case bp_dealloc chk (pools ps ! unat pool) mem p of
                    Inl e \<Rightarrow> Inl e
                  | Inr (bp', mem') \<Rightarrow>
                      Inr (True, ps\<lparr>pools := (pools ps)[unat pool := bp']\<rparr>, mem'))
            else ps_dealloc_loop chk ps mem p (pool + 1))
      else Inr (False, ps, mem))"
  by pat_completeness auto
termination
proof (relation "measure (\<lambda>(chk, ps, mem, p, pool). unat (pool_count ps) - unat pool)")
  show "wf (measure (\<lambda>(chk, ps, mem, p, pool). unat (pool_count ps) - unat pool))"
    by simp
next
  fix chk :: bool and ps :: pool_set and mem :: memory and p pool :: u32
  assume "pool < pool_count ps"
  then have lt: "unat pool < unat (pool_count ps)" by (simp add: word_less_nat_alt)
  moreover have "unat (pool_count ps) < 2 ^ LENGTH(32)"
    by (rule unsigned_less)
  ultimately have "unat pool + unat (1::u32) < 2 ^ LENGTH(32)"
    by simp
  then have "unat (pool + 1) = unat pool + unat (1::u32)"
    by (simp only: unat_add_lem)
  with lt show "((chk, ps, mem, p, pool + 1), (chk, ps, mem, p, pool))
      \<in> measure (\<lambda>(chk, ps, mem, p, pool). unat (pool_count ps) - unat pool)"
    by simp
qed

declare ps_dealloc_loop.simps [simp del]

definition ps_dealloc ::
  "bool \<Rightarrow> pool_set \<Rightarrow> memory \<Rightarrow> u32 \<Rightarrow> error + bool \<times> pool_set \<times> memory" where
  "ps_dealloc chk ps mem p = ps_dealloc_loop chk ps mem p 0"

section \<open>The arena allocator (\<^verbatim>\<open>class fixed_pool<PoolSize>\<close>)\<close>

text \<open>
  Modelled from the spec: the enumeration \<^verbatim>\<open>sys::pool_type::en\<close> of the platform layer,
  with the three strategies \<^verbatim>\<open>fixed_pool::alloc\<close> tells apart: size-classed
  (\<^verbatim>\<open>logarithmic\<close>), arena-direct (\<^verbatim>\<open>fixed\<close>) and \<^verbatim>\<open>heap\<close>.
\<close>

datatype pool_type = logarithmic | fixed | heap

text \<open>
  One call of \<^verbatim>\<open>sys::log\<close> by \<^verbatim>\<open>fixed_pool::alloc\<close>: the five arguments of the
  format string \<^verbatim>\<open>"Alloc type \"%s\" size %5db  0x%08x %s %s"\<close>.
\<close>

record trace =
  tr_label :: string
  tr_bytes :: u32
  tr_ptr :: u32
  tr_status :: string
  tr_note :: string

text \<open>
  The state the arena allocator works on: the globals \<^verbatim>\<open>frag_buffer\<close>, \<^verbatim>\<open>next\<close>
  (the field \<open>next_free\<close>), \<^verbatim>\<open>released\<close> and \<^verbatim>\<open>debug\<close>, the pool set singleton, the
  memory, the state \<open>'h\<close> of the general heap (\<^verbatim>\<open>malloc\<close>, \<^verbatim>\<open>free\<close> and
  \<^verbatim>\<open>operator delete[]\<close> are external; they are parameters of the functions below) and
  the lines logged so far.
\<close>

record 'h arena =
  frag_buffer :: u32
  next_free :: u32
  released :: bool
  debug :: bool
  pset :: pool_set
  store :: memory
  ext_heap :: 'h
  trace_log :: "trace list"

text \<open>
  Modelled from the spec: \<^verbatim>\<open>sys::cas\<close> of the platform layer, "an atomic
  compare-and-swap primitive over machine words", here on the global \<^verbatim>\<open>next\<close>:
  when the word holds the expected value it is replaced and the call reports success.
\<close>

definition cas_next :: "'h arena \<Rightarrow> u32 \<Rightarrow> u32 \<Rightarrow> bool \<times> 'h arena" where
  "cas_next st expected desired =
     (if next_free st = expected then (True, st\<lparr>next_free := desired\<rparr>) else (False, st))"

text \<open>
  The \<^verbatim>\<open>do ... while (0 == p)\<close> loop of \<^verbatim>\<open>fixed_pool::alloc\<close>, run by one caller
  alone. \<open>None\<close> is a loop that never ends.
\<close>

partial_function (option) reserve :: "u32 \<Rightarrow> u32 \<Rightarrow> 'h arena \<Rightarrow> (u32 \<times> 'h arena) option" where
  "reserve PoolSize alloc_bytes st =
     (let cur_next = next_free st;
          next_next = cur_next + alloc_bytes
      in if next_next > frag_buffer st + PoolSize then Some (0, st)
         else (case cas_next st cur_next next_next of
                 (swapped, st') \<Rightarrow>
                   (let p = (if swapped then cur_next else 0)
                    in if 0 = p then reserve PoolSize alloc_bytes st' else Some (p, st'))))"

text \<open>
  Modelled from the spec: \<^verbatim>\<open>sys::log\<close> of the platform layer, "a structured logging
  call". The line it writes is kept as the record of its arguments.
\<close>

definition sys_log :: "'h arena \<Rightarrow> string \<Rightarrow> u32 \<Rightarrow> u32 \<Rightarrow> string \<Rightarrow> string \<Rightarrow> 'h arena" where
  "sys_log st label bytes p status note =
     st\<lparr>trace_log := trace_log st @
        [\<lparr>tr_label = label, tr_bytes = bytes, tr_ptr = p, tr_status = status, tr_note = note\<rparr>]\<rparr>"

text \<open>
  \<^verbatim>\<open>fixed_pool::alloc\<close>, in two parts. The first is the \<^verbatim>\<open>if\<close> / \<^verbatim>\<open>else if\<close> that
  tries the pool set or the arena and leaves \<^verbatim>\<open>p\<close> null otherwise.
\<close>

definition tier_alloc :: "u32 \<Rightarrow> 'h arena \<Rightarrow> u32 \<Rightarrow> pool_type \<Rightarrow> (u32 \<times> 'h arena) option" where
  "tier_alloc PoolSize st alloc_bytes type =
     (if logarithmic = type
      then (case ps_alloc (pset st) (store st) alloc_bytes of
              (p, ps') \<Rightarrow> Some (p, st\<lparr>pset := ps'\<rparr>))
      else if fixed = type \<and> alloc_bytes \<le> PoolSize
      then reserve PoolSize alloc_bytes st
      else Some (0, st))"

text \<open>
  The second part is the rest of the body: the heap fallback, the trace and the return.
  \<^verbatim>\<open>malloc\<close> is external: the parameter \<open>malloc\<close> gives the pointer and the new state of
  the heap.
\<close>

definition fp_alloc ::
  "('h \<Rightarrow> u32 \<Rightarrow> u32 \<times> 'h) \<Rightarrow> u32 \<Rightarrow> 'h arena \<Rightarrow> u32 \<Rightarrow> pool_type \<Rightarrow> (u32 \<times> 'h arena) option" where
  "fp_alloc malloc PoolSize st bytes type =
     (let alloc_bytes = round4 bytes
      in case tier_alloc PoolSize st alloc_bytes type of
           None \<Rightarrow> None
         | Some (p1, st1) \<Rightarrow>
             (let heap_fallback = (0 = p1);
                  (p2, st2) = (if heap = type \<or> heap_fallback
                               then (case malloc (ext_heap st1) alloc_bytes of
                                       (q, h') \<Rightarrow> (q, st1\<lparr>ext_heap := h'\<rparr>))
                               else (p1, st1));
                  st3 = (if debug st2
                         then sys_log st2
                                (if logarithmic = type then '' Log ''
                                 else if fixed = type then ''Fixed'' else ''Heap '')
                                bytes
                                p2
                                (if p2 \<noteq> 0 then ''succeeded'' else ''failed'')
                                (if heap_fallback then ''(fallback on heap)'' else [])
                         else st2)
              in Some (p2, st3)))"

definition in_arena :: "u32 \<Rightarrow> 'h arena \<Rightarrow> u32 \<Rightarrow> bool" where
  "in_arena PoolSize st p \<longleftrightarrow> frag_buffer st \<le> p \<and> p < frag_buffer st + PoolSize"

definition fp_dealloc ::
  "bool \<Rightarrow> ('h \<Rightarrow> u32 \<Rightarrow> 'h) \<Rightarrow> u32 \<Rightarrow> 'h arena \<Rightarrow> u32 \<Rightarrow> error + 'h arena" where
  "fp_dealloc chk free PoolSize st p =
     (if in_arena PoolSize st p
      then (if \<not> released st
            then (case ps_dealloc chk (pset st) (store st) p of
                    Inl e \<Rightarrow> Inl e
                  | Inr (claimed, ps', mem') \<Rightarrow>
                      (if claimed then Inr (st\<lparr>pset := ps', store := mem'\<rparr>)
                       else Inr (st\<lparr>pset := ps', store := mem'\<rparr>)))
            else Inr st)
      else Inr (st\<lparr>ext_heap := free (ext_heap st) p\<rparr>))"

text \<open>
  \<^verbatim>\<open>release\<close>: \<^verbatim>\<open>block_pool::release\<close> is \<^verbatim>\<open>delete [] buffer\<close>,
  \<^verbatim>\<open>pool_set::release\<close> releases every pool and then \<^verbatim>\<open>delete [] pools\<close>. The
  operator \<^verbatim>\<open>delete[]\<close> is the parameter \<open>del\<close>, acting on the external heap.

  \<^verbatim>\<open>delete [] pools\<close> on an array of \<^verbatim>\<open>block_pool\<close> first runs the destructor
  \<^verbatim>\<open>~block_pool() {if (buffer) delete [] buffer;}\<close> of every element, the last element
  first, and then gives the array to \<^verbatim>\<open>operator delete[]\<close>. \<^verbatim>\<open>release\<close> does not
  reset \<^verbatim>\<open>buffer\<close>, so each buffer reaches \<^verbatim>\<open>operator delete[]\<close> twice.
\<close>

definition bp_release :: "('h \<Rightarrow> u32 \<Rightarrow> 'h) \<Rightarrow> block_pool \<Rightarrow> 'h \<Rightarrow> 'h" where
  "bp_release del bp h = del h (buffer bp)"

function ps_release_loop :: "('h \<Rightarrow> u32 \<Rightarrow> 'h) \<Rightarrow> pool_set \<Rightarrow> u32 \<Rightarrow> 'h \<Rightarrow> 'h" where
  "ps_release_loop del ps p h =
     (if p < pool_count ps
      then ps_release_loop del ps (p + 1) (bp_release del (pools ps ! unat p) h)
      else h)"
  by pat_completeness auto
termination
proof (relation "measure (\<lambda>(del, ps, p, h). unat (pool_count ps) - unat p)")
  show "wf (measure (\<lambda>(del, ps, p, h). unat (pool_count ps) - unat p))"
    by simp
next
  fix del :: "'h \<Rightarrow> u32 \<Rightarrow> 'h" and ps :: pool_set and p :: u32 and h :: 'h
  assume "p < pool_count ps"
  then have lt: "unat p < unat (pool_count ps)" by (simp add: word_less_nat_alt)
  moreover have "unat (pool_count ps) < 2 ^ LENGTH(32)"
    by (rule unsigned_less)
  ultimately have "unat p + unat (1::u32) < 2 ^ LENGTH(32)"
    by simp
  then have "unat (p + 1) = unat p + unat (1::u32)"
    by (simp only: unat_add_lem)
  with lt show "((del, ps, p + 1, bp_release del (pools ps ! unat p) h), (del, ps, p, h))
      \<in> measure (\<lambda>(del, ps, p, h). unat (pool_count ps) - unat p)"
    by simp
qed

declare ps_release_loop.simps [simp del]

definition bp_destructor :: "('h \<Rightarrow> u32 \<Rightarrow> 'h) \<Rightarrow> block_pool \<Rightarrow> 'h \<Rightarrow> 'h" where
  "bp_destructor del bp h = (if buffer bp \<noteq> 0 then del h (buffer bp) else h)"

definition delete_pools :: "('h \<Rightarrow> u32 \<Rightarrow> 'h) \<Rightarrow> pool_set \<Rightarrow> 'h \<Rightarrow> 'h" where
  "delete_pools del ps h = del (fold (bp_destructor del) (rev (pools ps)) h) (pools_addr ps)"

definition ps_release :: "('h \<Rightarrow> u32 \<Rightarrow> 'h) \<Rightarrow> pool_set \<Rightarrow> 'h \<Rightarrow> 'h" where
  "ps_release del ps h = delete_pools del ps (ps_release_loop del ps 0 h)"

definition fp_release :: "('h \<Rightarrow> u32 \<Rightarrow> 'h) \<Rightarrow> 'h arena \<Rightarrow> 'h arena" where
  "fp_release del st =
     (let st1 = st\<lparr>released := True\<rparr>
      in st1\<lparr>ext_heap := ps_release del (pset st1) (ext_heap st1)\<rparr>)"

section \<open>Sequences of pool operations\<close>

text \<open>\<open>n\<close> consecutive calls of \<^verbatim>\<open>alloc()\<close>, with the pointers they return.\<close>

fun alloc_n :: "nat \<Rightarrow> block_pool \<Rightarrow> memory \<Rightarrow> u32 list \<times> block_pool" where
  "alloc_n 0 bp mem = ([], bp)"
| "alloc_n (Suc n) bp mem =
     (case bp_alloc bp mem of
        (p, bp') \<Rightarrow> (case alloc_n n bp' mem of (ps, bp'') \<Rightarrow> (p # ps, bp'')))"

text \<open>\<^verbatim>\<open>dealloc\<close> called on each pointer of a list, in the list's order.\<close>

fun dealloc_all ::
  "bool \<Rightarrow> u32 list \<Rightarrow> block_pool \<Rightarrow> memory \<Rightarrow> error + block_pool \<times> memory" where
  "dealloc_all chk [] bp mem = Inr (bp, mem)"
| "dealloc_all chk (p # ps) bp mem =
     (case bp_dealloc chk bp mem p of
        Inl e \<Rightarrow> Inl e
      | Inr (bp', mem') \<Rightarrow> dealloc_all chk ps bp' mem')"

text \<open>
  The free list as a list: the \<open>n\<close> addresses reached from \<open>p\<close> by following the link
  stored in the first word of each block.
\<close>

fun chain :: "memory \<Rightarrow> u32 \<Rightarrow> nat \<Rightarrow> u32 list" where
  "chain mem p 0 = []"
| "chain mem p (Suc n) = p # chain mem (load32 mem p) n"

definition free_blocks :: "block_pool \<Rightarrow> memory \<Rightarrow> u32 list" where
  "free_blocks bp mem = chain mem (next_block bp) (unat (free_count bp))"

text \<open>
  A pool in a consistent state: no more free blocks than blocks, and the free list runs
  through \<open>free_count\<close> different blocks of the pool's buffer, none of them null, each at
  a whole number of words from the start of the buffer.
\<close>

definition pool_ok :: "block_pool \<Rightarrow> memory \<Rightarrow> bool" where
  "pool_ok bp mem \<longleftrightarrow>
     free_count bp \<le> block_count bp \<and>
     distinct (free_blocks bp mem) \<and>
     list_all (\<lambda>a. a \<noteq> 0 \<and> in_range bp a \<and> (a - buffer bp) AND 3 = 0) (free_blocks bp mem)"

section \<open>Concurrent callers of the arena-direct path\<close>

text \<open>
  Several callers inside the \<^verbatim>\<open>do ... while (0 == p)\<close> loop of \<^verbatim>\<open>fixed_pool::alloc\<close> at
  the same time. A caller touches shared memory twice per round: it reads \<^verbatim>\<open>next\<close>, and
  it tries the compare-and-swap; what it computes in between is its own. So a caller is
  \<^item> \<open>Reading\<close>: about to read \<^verbatim>\<open>next\<close> into \<^verbatim>\<open>cur_next\<close>;
  \<^item> \<open>Swapping cur\<close>: it has read \<open>cur\<close>, the candidate \<^verbatim>\<open>next_next\<close> fits the arena, and
    the compare-and-swap comes next;
  \<^item> \<open>Served p\<close>: it has left the loop with the pointer \<open>p\<close>, not null;
  \<^item> \<open>Exhausted\<close>: it has left the loop by \<^verbatim>\<open>break\<close>, or never entered it, and falls
    back to the heap.
\<close>

datatype caller = Reading | Swapping u32 | Served u32 | Exhausted

text \<open>The test \<^verbatim>\<open>alloc_bytes <= PoolSize\<close> that guards the loop.\<close>

definition enter :: "u32 \<Rightarrow> u32 \<Rightarrow> caller" where
  "enter PoolSize alloc_bytes = (if alloc_bytes \<le> PoolSize then Reading else Exhausted)"

text \<open>
  One atomic step of one caller, given the current value of \<^verbatim>\<open>next\<close>: the new value of
  \<^verbatim>\<open>next\<close> and the caller's new state. The compare-and-swap is that of the platform
  layer, as in \<open>cas_next\<close>.
\<close>

fun caller_step :: "u32 \<Rightarrow> u32 \<Rightarrow> u32 \<Rightarrow> u32 \<Rightarrow> caller \<Rightarrow> (u32 \<times> caller) option" where
  "caller_step fb PoolSize alloc_bytes nxt Reading =
     Some (nxt, if nxt + alloc_bytes > fb + PoolSize then Exhausted else Swapping nxt)"
| "caller_step fb PoolSize alloc_bytes nxt (Swapping cur) =
     Some (if nxt = cur
           then (cur + alloc_bytes, if 0 = cur then Reading else Served cur)
           else (nxt, Reading))"
| "caller_step fb PoolSize alloc_bytes nxt (Served p) = None"
| "caller_step fb PoolSize alloc_bytes nxt Exhausted = None"

text \<open>An interleaving is a sequence of steps, each taken by any caller that can move.\<close>

inductive sys_step :: "u32 \<Rightarrow> u32 \<Rightarrow> u32 \<Rightarrow> u32 \<times> caller list \<Rightarrow> u32 \<times> caller list \<Rightarrow> bool"
  for fb PoolSize alloc_bytes where
  step: "i < length cs \<Longrightarrow> caller_step fb PoolSize alloc_bytes nxt (cs ! i) = Some (nxt', c')
    \<Longrightarrow> sys_step fb PoolSize alloc_bytes (nxt, cs) (nxt', cs[i := c'])"

fun finished :: "caller \<Rightarrow> bool" where
  "finished (Served p) = True"
| "finished Exhausted = True"
| "finished c = False"

fun is_served :: "caller \<Rightarrow> bool" where
  "is_served (Served p) = True"
| "is_served c = False"

definition served_count :: "caller list \<Rightarrow> nat" where
  "served_count cs = length (filter is_served cs)"

text \<open>
  What holds of every configuration the callers can reach when the arena has room for
  all of them: \<^verbatim>\<open>next\<close> has advanced by the served requests, nobody has given up, and
  the served ranges lie below \<^verbatim>\<open>next\<close> and apart from each other.
\<close>

definition bump_inv :: "u32 \<Rightarrow> u32 \<Rightarrow> nat \<Rightarrow> u32 \<times> caller list \<Rightarrow> bool" where
  "bump_inv c0 alloc_bytes n s \<longleftrightarrow>
     length (snd s) = n \<and>
     unat (fst s) = unat c0 + served_count (snd s) * unat alloc_bytes \<and>
     Exhausted \<notin> set (snd s) \<and>
     (\<forall>i<n. \<forall>p. snd s ! i = Served p \<longrightarrow>
        p \<noteq> 0 \<and> unat c0 \<le> unat p \<and> unat p + unat alloc_bytes \<le> unat (fst s)) \<and>
     (\<forall>i<n. \<forall>j<n. \<forall>p q. i \<noteq> j \<and> snd s ! i = Served p \<and> snd s ! j = Served q \<longrightarrow>
        unat p + unat alloc_bytes \<le> unat q \<or> unat q + unat alloc_bytes \<le> unat p)"

text \<open>The measure of progress: a stale read costs more than a fresh one.\<close>

fun weight :: "u32 \<Rightarrow> caller \<Rightarrow> nat" where
  "weight nxt Reading = 2"
| "weight nxt (Swapping cur) = (if cur = nxt then 1 else 3)"
| "weight nxt c = 0"

definition unfinished :: "caller list \<Rightarrow> nat" where
  "unfinished cs = length (filter (\<lambda>c. \<not> finished c) cs)"

definition effort :: "u32 \<times> caller list \<Rightarrow> nat \<times> nat" where
  "effort s = (unfinished (snd s), sum_list (map (weight (fst s)) (snd s)))"

section \<open>The specification's size-class arithmetic\<close>

text \<open>
  The specification's \<open>ceil_log2 x\<close>: the smallest \<open>k\<close> with \<open>2 ^ k \<ge> x\<close>, found by
  searching upwards from 0.
\<close>

function ceil_log2_from :: "nat \<Rightarrow> nat \<Rightarrow> nat" where
  "ceil_log2_from k x = (if x \<le> 2 ^ k then k else ceil_log2_from (Suc k) x)"
  by pat_completeness auto
termination
proof (relation "measure (\<lambda>(k, x). x - 2 ^ k)")
  show "wf (measure (\<lambda>(k, x). x - 2 ^ k))" by simp
next
  fix k x :: nat
  assume "\<not> x \<le> 2 ^ k"
  moreover have "(0::nat) < 2 ^ k" by simp
  ultimately have "x - 2 * 2 ^ k < x - 2 ^ k" by linarith
  then show "((Suc k, x), (k, x)) \<in> measure (\<lambda>(k, x). x - 2 ^ k)" by simp
qed

declare ceil_log2_from.simps [simp del]

definition ceil_log2 :: "nat \<Rightarrow> nat" where
  "ceil_log2 x = ceil_log2_from 0 x"

text \<open>The specification's rounding of a size up to a multiple of 4.\<close>

definition round_up4 :: "nat \<Rightarrow> nat" where
  "round_up4 n = ((n + 3) div 4) * 4"

text \<open>Delegating a request to pool \<open>i\<close> of the set: that pool's \<^verbatim>\<open>alloc\<close>, nothing else.\<close>

definition route_to :: "pool_set \<Rightarrow> memory \<Rightarrow> nat \<Rightarrow> u32 \<times> pool_set" where
  "route_to ps mem i =
     (fst (bp_alloc (pools ps ! i) mem),
      ps\<lparr>pools := (pools ps)[i := snd (bp_alloc (pools ps ! i) mem)]\<rparr>)"

section \<open>A worked configuration\<close>

text \<open>
  The specification's round-trip scenario: an arena of 1024 bytes at \<open>0x10000\<close> whose
  pool set has block counts 4, 4 and 2 for the classes of 4, 8 and 16 bytes. The pools'
  buffers lie in the arena, one after the other; fresh memory holds the word
  \<open>0xDEADBEEF\<close> at every multiple of 4.
\<close>

definition ex_mem :: memory where
  "ex_mem = (\<lambda>a. if a AND 3 = 0 then 0xEF else if a AND 3 = 1 then 0xBE
                  else if a AND 3 = 2 then 0xAD else 0xDE)"

text \<open>A pool as the constructor \<^verbatim>\<open>block_pool()\<close> leaves it (it does not set \<^verbatim>\<open>end_buffer\<close>).\<close>

definition ex_blank :: block_pool where
  "ex_blank = \<lparr>block_count = 0, free_count = 0, next_block = 0, buffer = 0, end_buffer = 0\<rparr>"

definition ex_init0 :: "block_pool \<times> memory" where
  "ex_init0 = bp_init 0x10040 4 4 ex_blank ex_mem"

definition ex_init1 :: "block_pool \<times> memory" where
  "ex_init1 = bp_init 0x10050 8 4 ex_blank (snd ex_init0)"

definition ex_init2 :: "block_pool \<times> memory" where
  "ex_init2 = bp_init 0x10070 16 2 ex_blank (snd ex_init1)"

definition ex_set :: pool_set where
  "ex_set = \<lparr>pool_count = 3, pools_addr = 0x10000,
             pools = [fst ex_init0, fst ex_init1, fst ex_init2]\<rparr>"

definition ex_store :: memory where
  "ex_store = snd ex_init2"

text \<open>
  A general heap for the examples: it hands out addresses from \<open>0x80000000\<close> upwards and
  remembers the pointers given back to it.
\<close>

definition ex_malloc :: "u32 \<times> u32 list \<Rightarrow> u32 \<Rightarrow> u32 \<times> (u32 \<times> u32 list)" where
  "ex_malloc h n = (fst h, (fst h + n + 8, snd h))"

definition ex_free :: "u32 \<times> u32 list \<Rightarrow> u32 \<Rightarrow> u32 \<times> u32 list" where
  "ex_free h p = (fst h, p # snd h)"

definition ex_arena :: "(u32 \<times> u32 list) arena" where
  "ex_arena = \<lparr>frag_buffer = 0x10000, next_free = 0x10090, released = False, debug = True,
               pset = ex_set, store = ex_store, ext_heap = (0x80000000, []), trace_log = []\<rparr>"

text \<open>Fresh memory with other contents.\<close>

definition ex_mem_alt :: memory where
  "ex_mem_alt = (\<lambda>a. if a AND 3 = 0 then 0x78 else if a AND 3 = 1 then 0x56
                      else if a AND 3 = 2 then 0x34 else 0x12)"

text \<open>The worked arena after one size-classed request of 8 bytes has been served.\<close>

definition ex_busy :: "(u32 \<times> u32 list) arena" where
  "ex_busy = (case fp_alloc ex_malloc 1024 ex_arena 8 logarithmic of
                Some (p, st) \<Rightarrow> st
              | None \<Rightarrow> ex_arena)"

text \<open>The specification's exhaustion scenario: an arena of 16 bytes and no pools.\<close>

definition ex_small :: "(u32 \<times> u32 list) arena" where
  "ex_small = \<lparr>frag_buffer = 0x20000, next_free = 0x20000, released = False, debug = True,
               pset = \<lparr>pool_count = 0, pools_addr = 0, pools = []\<rparr>,
               store = ex_mem, ext_heap = (0x80000000, []), trace_log = []\<rparr>"

text \<open>An \<^verbatim>\<open>operator delete[]\<close> for the examples, which leaves the general heap alone.\<close>

definition ex_delete :: "u32 \<times> u32 list \<Rightarrow> u32 \<Rightarrow> u32 \<times> u32 list" where
  "ex_delete h p = h"

section \<open>Bits of 32-bit words\<close>

lemma exp_lt_32: "(2::nat) ^ h < 2 ^ 32 \<Longrightarrow> h < 32"
  using power_strict_increasing_iff [of "2::nat" h 32] by simp

lemma bit_u32_nat: "bit (x::u32) n \<longleftrightarrow> odd (unat x div 2 ^ n)"
  by (simp flip: bit_nat_def add: bit_unsigned_iff)

lemma bit_in_ivl:
  fixes x :: u32
  assumes "2 ^ h \<le> unat x" "unat x < 2 ^ Suc h"
  shows "bit x h"
proof -
  have "unat x div 2 ^ h = 1"
    using assms by (intro div_nat_eqI) simp_all
  then show ?thesis by (simp add: bit_u32_nat)
qed

lemma bit_above:
  fixes x :: u32
  assumes "unat x < 2 ^ Suc h" "h < m"
  shows "\<not> bit x m"
proof -
  have "(2::nat) ^ Suc h \<le> 2 ^ m" using assms(2) by (intro power_increasing) simp_all
  then have "unat x div 2 ^ m = 0" using assms(1) by simp
  then show ?thesis by (simp add: bit_u32_nat)
qed

lemma high_bit_ex:
  fixes x :: u32
  assumes "x \<noteq> 0"
  shows "\<exists>h<32. 2 ^ h \<le> unat x \<and> unat x < 2 ^ Suc h"
proof -
  have "1 \<le> unat x" using assms by (simp add: unat_gt_0 Suc_leI)
  then obtain h where h: "2 ^ h \<le> unat x" "unat x < 2 ^ (h + 1)"
    using ex_power_ivl1 [of 2 "unat x"] by auto
  have "unat x < 2 ^ 32" using unsigned_less [of x] by simp
  with h(1) have "(2::nat) ^ h < 2 ^ 32" by linarith
  then have "h < 32" by (rule exp_lt_32)
  with h show ?thesis by auto
qed

lemma signed_drop_bit_31: "signed_drop_bit 31 (w::u32) = (if bit w 31 then - 1 else 0)"
proof (rule bit_word_eqI)
  fix n assume "n < LENGTH(32)"
  then show "bit (signed_drop_bit 31 w) n = bit (if bit w 31 then - 1 else 0 :: u32) n"
    by (cases "n = 0") (auto simp: bit_signed_drop_bit_iff)
qed

lemma unat_neg: "(v::u32) \<noteq> 0 \<Longrightarrow> unat (- v) = 2 ^ 32 - unat v"
  using unat_sub_if' [of 0 v] by (simp add: unat_gt_0 unat_eq_zero)

lemma sign_trick: "bit ((v::u32) OR - v) 31 \<longleftrightarrow> v \<noteq> 0"
proof (cases "v = 0")
  case True
  then show ?thesis by simp
next
  case False
  show ?thesis
  proof (cases "bit v 31")
    case True
    with False show ?thesis by (simp add: bit_or_iff)
  next
    case nb: False
    have lt: "unat v < 2 ^ 32" using unsigned_less [of v] by simp
    have "unat v < 2 ^ 31"
    proof (rule ccontr)
      assume "\<not> unat v < 2 ^ 31"
      then have "bit v 31" using lt by (intro bit_in_ivl) simp_all
      with nb show False by simp
    qed
    moreover have "0 < unat v" using False by (simp add: unat_gt_0)
    ultimately have "2 ^ 31 \<le> unat (- v)" "unat (- v) < 2 ^ Suc 31"
      using False by (simp_all add: unat_neg)
    then have "bit (- v) 31" by (rule bit_in_ivl)
    with False show ?thesis by (simp add: bit_or_iff)
  qed
qed

lemma and_pred_zero_iff:
  fixes x :: u32
  assumes "2 ^ h \<le> unat x" "unat x < 2 ^ Suc h"
  shows "x AND (x - 1) = 0 \<longleftrightarrow> unat x = 2 ^ h"
proof
  assume z: "x AND (x - 1) = 0"
  show "unat x = 2 ^ h"
  proof (rule ccontr)
    assume "unat x \<noteq> 2 ^ h"
    with assms have gt: "2 ^ h < unat x" by simp
    then have "x \<noteq> 0" by auto
    then have "unat (x - 1) = unat x - 1" by (rule unat_minus_one)
    with gt assms have "2 ^ h \<le> unat (x - 1)" "unat (x - 1) < 2 ^ Suc h" by simp_all
    then have "bit (x - 1) h" by (rule bit_in_ivl)
    moreover have "bit x h" using assms by (rule bit_in_ivl)
    ultimately have "bit (x AND (x - 1)) h" by (simp add: bit_and_iff)
    with z show False by simp
  qed
next
  assume e: "unat x = 2 ^ h"
  have "x = of_nat (unat x)" by simp
  also have "\<dots> = 2 ^ h" unfolding e by simp
  finally have x: "x = 2 ^ h" .
  have "(2::u32) ^ h AND mask h = 0"
    by (rule bit_word_eqI) (auto simp: bit_and_iff bit_mask_iff bit_exp_iff)
  then show "x AND (x - 1) = 0"
    by (simp add: x mask_eq_decr_exp)
qed

subsection \<open>Bit smearing and population count\<close>

lemma smear_step:
  fixes x y :: u32
  assumes "\<And>n. bit y n \<longleftrightarrow> (\<exists>j<k. bit x (n + j))"
  shows "bit (y OR drop_bit k y) n \<longleftrightarrow> (\<exists>j<2 * k. bit x (n + j))"
proof
  assume "bit (y OR drop_bit k y) n"
  then consider "bit y n" | "bit y (k + n)"
    by (auto simp: bit_or_iff bit_drop_bit_eq)
  then show "\<exists>j<2 * k. bit x (n + j)"
  proof cases
    case 1
    then obtain j where "j < k" "bit x (n + j)" using assms by blast
    then show ?thesis by (intro exI [of _ j]) simp
  next
    case 2
    then obtain j where "j < k" "bit x (k + n + j)" using assms by blast
    then show ?thesis by (intro exI [of _ "k + j"]) (simp add: ac_simps)
  qed
next
  assume "\<exists>j<2 * k. bit x (n + j)"
  then obtain j where j: "j < 2 * k" "bit x (n + j)" by blast
  show "bit (y OR drop_bit k y) n"
  proof (cases "j < k")
    case True
    with j assms have "bit y n" by blast
    then show ?thesis by (simp add: bit_or_iff)
  next
    case False
    with j have "j - k < k" "bit x (k + n + (j - k))" by (simp_all add: ac_simps)
    with assms have "bit y (k + n)" by blast
    then show ?thesis by (simp add: bit_or_iff bit_drop_bit_eq)
  qed
qed

lemma bit_smear: "bit (smear x) n \<longleftrightarrow> (\<exists>j<32. bit x (n + j))"
proof -
  define x1 where "x1 = x OR drop_bit 1 x"
  define x2 where "x2 = x1 OR drop_bit 2 x1"
  define x3 where "x3 = x2 OR drop_bit 4 x2"
  define x4 where "x4 = x3 OR drop_bit 8 x3"
  have b0: "bit x n \<longleftrightarrow> (\<exists>j<1. bit x (n + j))" for n by simp
  have b1: "bit x1 n \<longleftrightarrow> (\<exists>j<2. bit x (n + j))" for n
    unfolding x1_def using smear_step [where k = 1, OF b0] by simp
  have b2: "bit x2 n \<longleftrightarrow> (\<exists>j<4. bit x (n + j))" for n
    unfolding x2_def using smear_step [where k = 2, OF b1] by simp
  have b3: "bit x3 n \<longleftrightarrow> (\<exists>j<8. bit x (n + j))" for n
    unfolding x3_def using smear_step [where k = 4, OF b2] by simp
  have b4: "bit x4 n \<longleftrightarrow> (\<exists>j<16. bit x (n + j))" for n
    unfolding x4_def using smear_step [where k = 8, OF b3] by simp
  have "bit (x4 OR drop_bit 16 x4) n \<longleftrightarrow> (\<exists>j<32. bit x (n + j))"
    using smear_step [where k = 16, OF b4] by simp
  then show ?thesis
    by (simp add: smear_def Let_def x1_def x2_def x3_def x4_def)
qed

lemma bits_set_mask_all: "\<forall>h\<in>set [0..<32]. bits_set (mask h) = of_nat h"
  by code_simp

lemma bits_set_mask: "h < 32 \<Longrightarrow> bits_set (mask h) = of_nat h"
  using bits_set_mask_all by simp

section \<open>The specification's arithmetic\<close>

lemma ceil_log2_from_spec:
  assumes "\<forall>j<k. 2 ^ j < x"
  shows "x \<le> 2 ^ ceil_log2_from k x \<and> (\<forall>j<ceil_log2_from k x. 2 ^ j < x)"
  using assms
proof (induction k x rule: ceil_log2_from.induct)
  case (1 k x)
  show ?case
  proof (cases "x \<le> 2 ^ k")
    case True
    then have "ceil_log2_from k x = k" by (subst ceil_log2_from.simps) simp
    with True "1.prems" show ?thesis by simp
  next
    case False
    then have "\<forall>j<Suc k. 2 ^ j < x" using "1.prems" by (auto simp: less_Suc_eq)
    moreover have "ceil_log2_from k x = ceil_log2_from (Suc k) x"
      using False by (subst ceil_log2_from.simps) simp
    ultimately show ?thesis using "1.IH" False by simp
  qed
qed

lemma ceil_log2_spec: "x \<le> 2 ^ ceil_log2 x \<and> (\<forall>j<ceil_log2 x. 2 ^ j < x)"
  unfolding ceil_log2_def by (rule ceil_log2_from_spec) simp

lemma ceil_log2_Least: "ceil_log2 x = (LEAST k. x \<le> 2 ^ k)"
proof (rule Least_equality [symmetric])
  show "x \<le> 2 ^ ceil_log2 x" using ceil_log2_spec by blast
next
  fix y assume "x \<le> 2 ^ y"
  then show "ceil_log2 x \<le> y"
    using ceil_log2_spec [of x] by (meson not_less)
qed

lemma ceil_log2_eqI:
  assumes "x \<le> 2 ^ k" "\<And>j. j < k \<Longrightarrow> 2 ^ j < x"
  shows "ceil_log2 x = k"
  unfolding ceil_log2_Least
  using assms by (intro Least_equality) (auto simp: not_less [symmetric] simp del: not_less)

lemma and_not_mask2: "(w::u32) AND NOT (mask 2) = push_bit 2 (drop_bit 2 w)"
proof (rule bit_word_eqI)
  fix n assume "n < LENGTH(32)"
  show "bit (w AND NOT (mask 2)) n = bit (push_bit 2 (drop_bit 2 w)) n"
  proof (cases "n < 2")
    case True
    then show ?thesis
      by (simp add: bit_and_iff bit_not_iff bit_mask_iff bit_push_bit_iff)
  next
    case False
    then obtain m where "n = 2 + m" by (metis le_add_diff_inverse not_less)
    with \<open>n < LENGTH(32)\<close> show ?thesis
      by (simp add: bit_and_iff bit_not_iff bit_mask_iff bit_push_bit_iff bit_drop_bit_eq)
  qed
qed

lemma not_3_mask: "NOT (3::u32) = NOT (mask 2)"
  by (simp add: mask_eq_decr_exp)

lemma unat_and_not_3: "unat ((w::u32) AND NOT 3) = (unat w div 4) * 4"
proof -
  have "unat w div 4 * 4 \<le> unat w" by simp
  also have "unat w < 2 ^ 32" using unsigned_less [of w] by simp
  finally have "take_bit 32 (unat w div 4 * 4) = unat w div 4 * 4"
    by (simp only: take_bit_nat_eq_self_iff)
  then show ?thesis
    unfolding not_3_mask and_not_mask2 unsigned_push_bit_eq unat_drop_bit_eq
    by (simp add: drop_bit_eq_div push_bit_eq_mult)
qed

lemma unat_round4:
  assumes "unat s \<le> 2 ^ 32 - 4"
  shows "unat (round4 s) = round_up4 (unat s)"
proof -
  have "unat s + unat (3::u32) < 2 ^ LENGTH(32)" using assms by simp
  then have "unat (s + 3) = unat s + unat (3::u32)" by (simp only: unat_add_lem)
  then show ?thesis unfolding round4_def round_up4_def unat_and_not_3 by simp
qed

section \<open>\<^verbatim>\<open>integer_log\<close> is the ceiling of the binary logarithm\<close>

lemma integer_log_alt:
  "integer_log x = bits_set (drop_bit 1 (smear x))
     - signed_drop_bit 31 ((x AND (x - 1)) OR - (x AND (x - 1)))"
  by (simp only: integer_log_def smear_def Let_def)

lemma smear_eq_mask:
  fixes x :: u32
  assumes "2 ^ h \<le> unat x" "unat x < 2 ^ Suc h"
  shows "smear x = mask (Suc h)"
proof (rule bit_word_eqI)
  fix n assume n: "n < LENGTH(32)"
  have "unat x < 2 ^ 32" using unsigned_less [of x] by simp
  with assms(1) have "(2::nat) ^ h < 2 ^ 32" by linarith
  then have h: "h < 32" by (rule exp_lt_32)
  have "(\<exists>j<32. bit x (n + j)) \<longleftrightarrow> n \<le> h"
  proof
    assume "\<exists>j<32. bit x (n + j)"
    then obtain j where "bit x (n + j)" by blast
    then have "\<not> h < n + j" using bit_above [OF assms(2)] by blast
    then show "n \<le> h" by simp
  next
    assume "n \<le> h"
    moreover have "bit x h" using assms by (rule bit_in_ivl)
    ultimately have "h - n < 32 \<and> bit x (n + (h - n))" using h by simp
    then show "\<exists>j<32. bit x (n + j)" by blast
  qed
  then show "bit (smear x) n = bit (mask (Suc h) :: u32) n"
    using n h by (simp add: bit_smear bit_mask_iff less_Suc_eq_le)
qed

lemma integer_log_ivl:
  fixes x :: u32
  assumes "2 ^ h \<le> unat x" "unat x < 2 ^ Suc h"
  shows "unat (integer_log x) = (if unat x = 2 ^ h then h else Suc h)"
proof -
  have "unat x < 2 ^ 32" using unsigned_less [of x] by simp
  with assms(1) have "(2::nat) ^ h < 2 ^ 32" by linarith
  then have h: "h < 32" by (rule exp_lt_32)
  have "drop_bit 1 (mask (Suc h) :: u32) = mask h"
    using h by (intro bit_word_eqI) (auto simp: bit_drop_bit_eq bit_mask_iff)
  then have "drop_bit 1 (smear x) = mask h"
    by (simp only: smear_eq_mask [OF assms])
  then have pc: "bits_set (drop_bit 1 (smear x)) = of_nat h"
    using h by (simp add: bits_set_mask)
  have l: "signed_drop_bit 31 ((x AND (x - 1)) OR - (x AND (x - 1)))
      = (if unat x = 2 ^ h then 0 else - 1)"
    by (simp add: signed_drop_bit_31 sign_trick and_pred_zero_iff [OF assms])
  have "integer_log x = (if unat x = 2 ^ h then of_nat h else of_nat (Suc h))"
    unfolding integer_log_alt pc l by simp
  moreover have "unat (of_nat h :: u32) = h" "unat (of_nat (Suc h) :: u32) = Suc h"
    using h by (simp_all add: unat_of_nat del: of_nat_Suc)
  ultimately show ?thesis by simp
qed

lemma integer_log_ceil_log2:
  assumes "x \<noteq> 0"
  shows "unat (integer_log x) = ceil_log2 (unat x)"
proof -
  from high_bit_ex [OF assms] obtain h where
    h: "2 ^ h \<le> unat x" "unat x < 2 ^ Suc h" by blast
  show ?thesis
  proof (cases "unat x = 2 ^ h")
    case True
    have "ceil_log2 (2 ^ h) = h"
      by (rule ceil_log2_eqI) simp_all
    with True show ?thesis by (simp add: integer_log_ivl [OF h])
  next
    case False
    with h have lt: "2 ^ h < unat x" by simp
    have "ceil_log2 (unat x) = Suc h"
    proof (rule ceil_log2_eqI)
      show "unat x \<le> 2 ^ Suc h" using h(2) by simp
    next
      fix j assume "j < Suc h"
      then have "(2::nat) ^ j \<le> 2 ^ h" by (intro power_increasing) simp_all
      with lt show "2 ^ j < unat x" by linarith
    qed
    with False show ?thesis by (simp add: integer_log_ivl [OF h])
  qed
qed

lemma integer_log_0: "integer_log 0 = 0"
  by (simp add: integer_log_def bits_set_def)

lemma round4_0: "round4 0 = 0"
  by (simp add: round4_def)

section \<open>Routing of size-classed requests\<close>

lemma ps_alloc_index:
  "ps_alloc ps mem s =
     (if integer_log (round4 s) - 2 < pool_count ps
      then route_to ps mem (unat (integer_log (round4 s) - 2))
      else (0, ps))"
  by (simp add: ps_alloc_def route_to_def Let_def case_prod_beta)

lemma round4_idem: "round4 (round4 s) = round4 s"
proof -
  have "unat (round4 s) \<le> 2 ^ 32 - 4"
  proof -
    have "unat (round4 s) = (unat (s + 3) div 4) * 4"
      unfolding round4_def by (rule unat_and_not_3)
    moreover have "unat (s + 3) < 2 ^ 32" using unsigned_less [of "s + 3"] by simp
    ultimately show ?thesis by simp
  qed
  then have "unat (round4 (round4 s)) = round_up4 (unat (round4 s))" by (rule unat_round4)
  also have "unat (round4 s) = (unat (s + 3) div 4) * 4"
    unfolding round4_def by (rule unat_and_not_3)
  also have "round_up4 ((unat (s + 3) div 4) * 4) = (unat (s + 3) div 4) * 4"
    by (simp add: round_up4_def)
  also have "\<dots> = unat (round4 s)"
    unfolding round4_def by (rule unat_and_not_3 [symmetric])
  finally show ?thesis by (simp add: word_unat_eq_iff)
qed

lemma pool_index_0: "integer_log (round4 0) - 2 = (0xFFFFFFFE :: u32)"
  by (simp add: round4_0 integer_log_0)

lemma round_up4_spec: "4 dvd round_up4 n \<and> n \<le> round_up4 n \<and> round_up4 n < n + 4"
  unfolding round_up4_def by presburger

lemma round_up4_le: "4 dvd m \<Longrightarrow> n \<le> m \<Longrightarrow> round_up4 n \<le> m"
  unfolding round_up4_def by presburger

lemma ceil_log2_ge2: "3 \<le> x \<Longrightarrow> 2 \<le> ceil_log2 x"
proof (rule ccontr)
  assume x: "3 \<le> x" and "\<not> 2 \<le> ceil_log2 x"
  then have "ceil_log2 x = 0 \<or> ceil_log2 x = 1" by auto
  moreover have "x \<le> 2 ^ ceil_log2 x" using ceil_log2_spec by blast
  ultimately show False using x by auto
qed

lemma size_class_of:
  assumes "2 * 2 ^ i < n" "n \<le> 4 * 2 ^ i"
  shows "ceil_log2 (round_up4 n) = i + 2"
proof (rule ceil_log2_eqI)
  have "4 dvd (4 * 2 ^ i :: nat)" by simp
  then have "round_up4 n \<le> 4 * 2 ^ i" using assms(2) by (rule round_up4_le)
  then show "round_up4 n \<le> 2 ^ (i + 2)" by simp
next
  fix j assume "j < i + 2"
  then have "(2::nat) ^ j \<le> 2 ^ (i + 1)" by (intro power_increasing) simp_all
  also have "\<dots> < n" using assms(1) by simp
  also have "n \<le> round_up4 n" using round_up4_spec by blast
  finally show "2 ^ j < round_up4 n" .
qed

lemma ceil_log2_pow: "ceil_log2 (2 ^ h) = h"
  by (rule ceil_log2_eqI) simp_all

text \<open>
  Claim C10. A size-classed request of 0 bytes gets nothing from the pool set, however
  many free blocks the pools hold: the rounded size stays 0, \<^verbatim>\<open>integer_log(0)\<close> is 0,
  the pool index \<open>0 - 2\<close> wraps to \<open>0xFFFFFFFE\<close>, which fails the bounds check, and the
  arena allocator serves the request from the general heap. (A pool array has fewer
  than \<open>2 ^ 32 - 1\<close> elements: it would not fit in the address space otherwise.)
\<close>

theorem zero_byte_request:
  assumes "pool_count ps < 0xFFFFFFFF" and "pool_count (pset st) < 0xFFFFFFFF"
  shows "round4 0 = 0 \<and> integer_log 0 = 0 \<and> integer_log (round4 0) - 2 = 0xFFFFFFFE
    \<and> \<not> integer_log (round4 0) - 2 < pool_count ps
    \<and> ps_alloc ps mem 0 = (0, ps)
    \<and> (\<exists>st'. fp_alloc malloc PoolSize st 0 logarithmic = Some (fst (malloc (ext_heap st) 0), st')
          \<and> ext_heap st' = snd (malloc (ext_heap st) 0)
          \<and> pset st' = pset st \<and> store st' = store st \<and> next_free st' = next_free st
          \<and> (debug st \<longrightarrow> tr_note (last (trace_log st')) = ''(fallback on heap)''))"
proof -
  have a: "\<not> (0xFFFFFFFE :: u32) < pool_count ps" "\<not> (0xFFFFFFFE :: u32) < pool_count (pset st)"
    using assms by (simp_all add: word_less_nat_alt)
  have 1: "ps_alloc ps mem 0 = (0, ps)"
    using a(1) by (simp add: ps_alloc_index pool_index_0)
  have 2: "ps_alloc (pset st) (store st) 0 = (0, pset st)"
    using a(2) by (simp add: ps_alloc_index pool_index_0)
  have 3: "\<not> integer_log (round4 0) - 2 < pool_count ps"
    using a(1) by (simp add: pool_index_0)
  have 4: "\<exists>st'. fp_alloc malloc PoolSize st 0 logarithmic = Some (fst (malloc (ext_heap st) 0), st')
          \<and> ext_heap st' = snd (malloc (ext_heap st) 0)
          \<and> pset st' = pset st \<and> store st' = store st \<and> next_free st' = next_free st
          \<and> (debug st \<longrightarrow> tr_note (last (trace_log st')) = ''(fallback on heap)'')"
    using 2
    by (simp add: round4_0 fp_alloc_def tier_alloc_def sys_log_def Let_def case_prod_beta)
  from round4_0 integer_log_0 pool_index_0 3 1 4 show ?thesis
    by (intro conjI)
qed

theorem zero_byte_request_witness:
  "pool_count ex_set < 0xFFFFFFFF \<and> pool_count (pset ex_arena) < 0xFFFFFFFF
   \<and> free_count (pools ex_set ! 0) = 4
   \<and> ps_alloc ex_set ex_store 0 = (0, ex_set)
   \<and> map_option fst (fp_alloc ex_malloc 1024 ex_arena 0 logarithmic) = Some 0x80000000"
proof -
  have h: "pool_count ex_set < 0xFFFFFFFF" "pool_count (pset ex_arena) < 0xFFFFFFFF"
    by (simp_all add: ex_set_def ex_arena_def)
  have "free_count (pools ex_set ! 0) = 4"
    by (simp add: ex_set_def ex_init0_def bp_init_def)
  moreover have "fst (ex_malloc (ext_heap ex_arena) 0) = 0x80000000"
    by (simp add: ex_malloc_def ex_arena_def)
  ultimately show ?thesis
    using h zero_byte_request [OF h, of ex_store ex_malloc 1024] by auto
qed

text \<open>
  Claim C1, as amended. For every size-classed request of size \<open>s\<close> with
  \<open>1 \<le> s \<le> 2 ^ 32 - 4\<close> the pool set rounds \<open>s\<close> up to a multiple of 4 and routes it to
  the pool of index \<open>ceil_log2 (rounded) - 2\<close>, where \<open>ceil_log2 x\<close> is the smallest \<open>k\<close>
  with \<open>2 ^ k \<ge> x\<close>; a request whose index lies outside \<open>[0, pool_count)\<close> returns
  none. So for every \<open>i\<close> in \<open>[0, pool_count)\<close> all sizes \<open>s\<close> with
  \<open>4 * 2 ^ (i - 1) < s \<le> 4 * 2 ^ i\<close> are served by pool \<open>i\<close>, the boundary sizes included.
\<close>

theorem size_class_routing:
  assumes "1 \<le> unat s" and "unat s \<le> 2 ^ 32 - 4"
  shows "unat (round4 s) = round_up4 (unat s)
    \<and> 2 \<le> ceil_log2 (round_up4 (unat s))
    \<and> unat (integer_log (round4 s) - 2) = ceil_log2 (round_up4 (unat s)) - 2
    \<and> ps_alloc ps mem s =
        (if ceil_log2 (round_up4 (unat s)) - 2 < unat (pool_count ps)
         then route_to ps mem (ceil_log2 (round_up4 (unat s)) - 2)
         else (0, ps))
    \<and> (\<forall>i<unat (pool_count ps). 2 * 2 ^ i < unat s \<and> unat s \<le> 4 * 2 ^ i
          \<longrightarrow> ps_alloc ps mem s = route_to ps mem i)"
proof -
  let ?r = "round_up4 (unat s)"
  have r: "unat (round4 s) = ?r" using assms(2) by (rule unat_round4)
  have "unat s \<le> ?r" using round_up4_spec by blast
  moreover have "4 dvd ?r" using round_up4_spec by blast
  ultimately have r4: "4 \<le> ?r" using assms(1) by (auto elim!: dvdE)
  then have c2: "2 \<le> ceil_log2 ?r" by (intro ceil_log2_ge2) simp
  have "round4 s \<noteq> 0" using r r4 by auto
  then have il: "unat (integer_log (round4 s)) = ceil_log2 ?r"
    using integer_log_ceil_log2 [of "round4 s"] r by simp
  then have "(2::u32) \<le> integer_log (round4 s)"
    using c2 by (simp add: word_le_nat_alt)
  then have "unat (integer_log (round4 s) - 2) = unat (integer_log (round4 s)) - unat (2::u32)"
    by (rule unat_sub)
  with il have idx: "unat (integer_log (round4 s) - 2) = ceil_log2 ?r - 2" by simp
  have alloc: "ps_alloc ps mem s =
        (if ceil_log2 ?r - 2 < unat (pool_count ps)
         then route_to ps mem (ceil_log2 ?r - 2) else (0, ps))"
    by (simp add: ps_alloc_index word_less_nat_alt idx)
  have "ps_alloc ps mem s = route_to ps mem i"
    if "i < unat (pool_count ps)" "2 * 2 ^ i < unat s" "unat s \<le> 4 * 2 ^ i" for i
  proof -
    have "ceil_log2 ?r = i + 2" using that(2,3) by (rule size_class_of)
    with alloc that(1) show ?thesis by simp
  qed
  with r c2 idx alloc show ?thesis by blast
qed

theorem size_class_routing_witness:
  "1 \<le> unat (8 :: u32) \<and> unat (8 :: u32) \<le> 2 ^ 32 - 4
   \<and> unat (pool_count ex_set) = 3 \<and> 2 * 2 ^ 1 < unat (8 :: u32) \<and> unat (8 :: u32) \<le> 4 * 2 ^ 1
   \<and> ps_alloc ex_set ex_store 8 = route_to ex_set ex_store 1"
proof -
  have h: "1 \<le> unat (8 :: u32)" "unat (8 :: u32) \<le> 2 ^ 32 - 4"
    by simp_all
  have "unat (pool_count ex_set) = 3"
    by (simp add: ex_set_def)
  then show ?thesis
    using h size_class_routing [OF h, of ex_set ex_store] by auto
qed

text \<open>
  Claim C1 as stated fails for the three largest sizes: \<open>s + 3\<close> wraps around, so the
  size \<open>0xFFFFFFFF\<close> is "rounded" to 0 instead of up, and the pool index computed is
  \<open>0xFFFFFFFE\<close>, not \<open>ceil_log2 (2 ^ 32) - 2 = 30\<close>.
\<close>

theorem size_rounding_wraps:
  "1 \<le> unat (0xFFFFFFFF :: u32)
   \<and> round4 0xFFFFFFFF = 0
   \<and> round_up4 (unat (0xFFFFFFFF :: u32)) = 4294967296
   \<and> unat (integer_log (round4 0xFFFFFFFF) - 2) = 4294967294
   \<and> ceil_log2 (round_up4 (unat (0xFFFFFFFF :: u32))) - 2 = 30"
proof -
  have "ceil_log2 (round_up4 (unat (0xFFFFFFFF :: u32))) = ceil_log2 (2 ^ 32)"
    by (simp add: round_up4_def)
  then have "ceil_log2 (round_up4 (unat (0xFFFFFFFF :: u32))) = 32"
    by (simp only: ceil_log2_pow)
  then have c: "ceil_log2 (round_up4 (unat (0xFFFFFFFF :: u32))) - 2 = 30"
    by simp
  have r: "round4 0xFFFFFFFF = 0"
    by (simp add: round4_def)
  have "integer_log (round4 0xFFFFFFFF) - 2 = 0xFFFFFFFE"
    unfolding r integer_log_0 by simp
  then have i: "unat (integer_log (round4 0xFFFFFFFF) - 2) = 4294967294"
    by simp
  have u: "round_up4 (unat (0xFFFFFFFF :: u32)) = 4294967296"
    by (simp add: round_up4_def)
  show ?thesis
    using c r i u by simp
qed

section \<open>Words in the byte memory\<close>

lemma in_word_cases: "in_word a x \<longleftrightarrow> x = a \<or> x = a + 1 \<or> x = a + 2 \<or> x = a + 3"
proof -
  have "x - a < 4 \<longleftrightarrow> x - a = 0 \<or> x - a = 1 \<or> x - a = 2 \<or> x - a = 3"
    by (auto simp: word_less_nat_alt word_unat_eq_iff)
  also have "\<dots> \<longleftrightarrow> x = a \<or> x = a + 1 \<or> x = a + 2 \<or> x = a + 3"
    by (auto simp: algebra_simps)
  finally show ?thesis by (simp add: in_word_def)
qed

lemma store32_out: "\<not> in_word a x \<Longrightarrow> store32 mem a v x = mem x"
  by (simp add: in_word_cases store32_def)

lemma bytes_word:
  "ucast (ucast v :: 8 word) OR push_bit 8 (ucast (ucast (drop_bit 8 v) :: 8 word))
     OR push_bit 16 (ucast (ucast (drop_bit 16 v) :: 8 word))
     OR push_bit 24 (ucast (ucast (drop_bit 24 v) :: 8 word)) = (v :: u32)"
proof (rule bit_word_eqI)
  fix n assume "n < LENGTH(32)"
  then consider "n < 8" | "8 \<le> n" "n < 16" | "16 \<le> n" "n < 24" | "24 \<le> n" "n < 32"
    by fastforce
  then show "bit (ucast (ucast v :: 8 word) OR push_bit 8 (ucast (ucast (drop_bit 8 v) :: 8 word))
     OR push_bit 16 (ucast (ucast (drop_bit 16 v) :: 8 word))
     OR push_bit 24 (ucast (ucast (drop_bit 24 v) :: 8 word)) :: u32) n = bit v n"
  proof cases
    case 1
    then show ?thesis by (simp add: bit_simps)
  next
    case 2
    then have "n - 8 < 8" "\<not> n < 8" "\<not> 16 \<le> n" "\<not> 24 \<le> n" by simp_all
    with 2 show ?thesis by (simp add: bit_simps)
  next
    case 3
    then have "n - 16 < 8" "\<not> n < 8" "\<not> n - 8 < 8" "8 \<le> n" "\<not> 24 \<le> n" by simp_all
    with 3 show ?thesis by (simp add: bit_simps)
  next
    case 4
    then have "n - 24 < 8" "\<not> n < 8" "\<not> n - 8 < 8" "\<not> n - 16 < 8" "8 \<le> n" "16 \<le> n"
      by simp_all
    with 4 show ?thesis by (simp add: bit_simps)
  qed
qed

lemma store32_in: "load32 (store32 mem a v) a = v"
proof -
  have "store32 mem a v a = ucast v" "store32 mem a v (a + 1) = ucast (drop_bit 8 v)"
    "store32 mem a v (a + 2) = ucast (drop_bit 16 v)" "store32 mem a v (a + 3) = ucast (drop_bit 24 v)"
    by (simp_all add: store32_def)
  then show ?thesis
    unfolding load32_def by (simp only: bytes_word)
qed

lemma load32_cong: "(\<And>x. in_word a x \<Longrightarrow> mem' x = mem x) \<Longrightarrow> load32 mem' a = load32 mem a"
  by (simp add: load32_def in_word_cases)

lemma small_cases: "(d :: u32) < 4 \<longleftrightarrow> d = 0 \<or> d = 1 \<or> d = 2 \<or> d = 3"
  by (auto simp: word_less_nat_alt word_unat_eq_iff)

lemma small_diff_aligned:
  "(d :: u32) < 4 \<Longrightarrow> e < 4 \<Longrightarrow> (e - d) AND 3 = 0 \<Longrightarrow> e = d"
  unfolding small_cases by (elim disjE) simp_all

lemma aligned_apart:
  assumes "(a - b) AND 3 = 0" and "a \<noteq> b" and "in_word a x"
  shows "\<not> in_word b x"
proof
  assume "in_word b x"
  with assms(3) have xa: "x - a < 4" and xb: "x - b < 4" by (simp_all add: in_word_def)
  have "(x - b) - (x - a) = a - b" by (simp add: algebra_simps)
  with assms(1) have "((x - b) - (x - a)) AND 3 = 0" by (simp only:)
  with xa xb have e: "x - b = x - a" by (rule small_diff_aligned)
  have "b = x - (x - b)" by (simp add: algebra_simps)
  also have "\<dots> = x - (x - a)" by (simp only: e)
  also have "\<dots> = a" by (simp add: algebra_simps)
  finally have "b = a" .
  with assms(2) show False by simp
qed

lemma aligned_diff:
  assumes "(a - c) AND 3 = 0" and "(b - c) AND 3 = 0"
  shows "(a - b) AND (3 :: u32) = 0"
proof -
  have m: "(3::u32) = mask 2" by (simp add: mask_eq_decr_exp)
  have "take_bit 2 (a - c) = 0" "take_bit 2 (b - c) = 0"
    using assms by (simp_all add: take_bit_eq_mask m)
  then have "4 dvd a - c" "4 dvd b - c"
    by (simp_all add: take_bit_eq_0_iff)
  then have "4 dvd (a - c) - (b - c)" by (rule dvd_diff)
  then have "take_bit 2 (a - b) = 0" by (simp add: take_bit_eq_0_iff)
  then show ?thesis by (simp add: take_bit_eq_mask m)
qed

lemma aligned_sym: "(a - b) AND (3 :: u32) = 0 \<Longrightarrow> (b - a) AND 3 = 0"
  using aligned_diff [of b b a] by simp

lemma load_store_other:
  assumes "(a - b) AND 3 = 0" and "a \<noteq> b"
  shows "load32 (store32 mem a v) b = load32 mem b"
proof (rule load32_cong)
  fix x assume "in_word b x"
  moreover have "(b - a) AND 3 = 0" using assms(1) by (rule aligned_sym)
  ultimately have "\<not> in_word a x" using assms(2) by (intro aligned_apart [of b a]) simp_all
  then show "store32 mem a v x = mem x" by (rule store32_out)
qed

lemma in_word_unat:
  assumes "in_word a x" and "unat a + 3 < 2 ^ 32"
  shows "unat a \<le> unat x \<and> unat x \<le> unat a + 3"
proof -
  from assms(1) have d: "unat (x - a) < 4"
    by (simp add: in_word_def word_less_nat_alt)
  with assms(2) have "unat a + unat (x - a) < 2 ^ LENGTH(32)"
    by simp
  then have "unat (a + (x - a)) = unat a + unat (x - a)"
    by (simp only: unat_add_lem)
  then have "unat x = unat a + unat (x - a)"
    by simp
  with d show ?thesis by simp
qed

section \<open>The block pool\<close>

lemma unat_plus1:
  fixes b c :: u32
  assumes "b < c"
  shows "unat (b + 1) = unat b + 1"
proof -
  have "unat b < unat c" using assms by (simp add: word_less_nat_alt)
  moreover have "unat c < 2 ^ LENGTH(32)" by (rule unsigned_less)
  ultimately have "unat b + unat (1::u32) < 2 ^ LENGTH(32)" by simp
  then have "unat (b + 1) = unat b + unat (1::u32)" by (simp only: unat_add_lem)
  then show ?thesis by simp
qed

lemma less_plus1_iff:
  fixes b c k :: u32
  assumes "b < c"
  shows "k < b + 1 \<longleftrightarrow> k < b \<or> k = b"
  using unat_plus1 [OF assms] by (auto simp: word_less_nat_alt word_unat_eq_iff)

lemma block_addr_next:
  "block_addr buf bs (k + 1) = block_addr buf bs k + 4 * drop_bit 2 bs"
  by (simp add: block_addr_def elem_addr_def algebra_simps)

lemma block_addr_0: "block_addr buf bs 0 = buf"
  by (simp add: block_addr_def elem_addr_def)

lemma four_times_and_3: "(4 * w :: u32) AND 3 = 0"
proof -
  have "(3::u32) = mask 2" by (simp add: mask_eq_decr_exp)
  moreover have "4 * w = push_bit 2 w" by (simp add: push_bit_eq_mult)
  moreover have "push_bit 2 w AND mask 2 = 0"
    by (rule bit_word_eqI) (auto simp: bit_and_iff bit_push_bit_iff bit_mask_iff)
  ultimately show ?thesis by simp
qed

lemma block_addr_aligned: "(block_addr buf bs k - buf) AND 3 = 0"
  by (simp add: block_addr_def elem_addr_def four_times_and_3)

lemma block_addr_aligned2: "(block_addr buf bs j - block_addr buf bs k) AND 3 = 0"
  using block_addr_aligned block_addr_aligned by (rule aligned_diff)

lemma init_loop_links:
  assumes "\<forall>k<b. load32 mem (block_addr buf bs k) = block_addr buf bs (k + 1)"
  shows "\<forall>k<bc - 1. load32 (init_loop buf bs bc b mem) (block_addr buf bs k) = block_addr buf bs (k + 1)"
  using assms
proof (induction buf bs bc b mem rule: init_loop.induct)
  case (1 buf bs bc b mem)
  show ?case
  proof (cases "b < bc - 1")
    case True
    let ?mem' = "store32 mem (block_addr buf bs b) (block_addr buf bs (b + 1))"
    have "\<forall>k<b + 1. load32 ?mem' (block_addr buf bs k) = block_addr buf bs (k + 1)"
    proof (intro allI impI)
      fix k assume "k < b + 1"
      then consider "k = b" | "k < b" "block_addr buf bs k = block_addr buf bs b"
        | "k < b" "block_addr buf bs k \<noteq> block_addr buf bs b"
        using less_plus1_iff [OF True] by blast
      then show "load32 ?mem' (block_addr buf bs k) = block_addr buf bs (k + 1)"
      proof cases
        case 1
        then show ?thesis by (simp add: store32_in)
      next
        case 2
        then show ?thesis by (simp add: block_addr_next store32_in)
      next
        case 3
        have "load32 ?mem' (block_addr buf bs k) = load32 mem (block_addr buf bs k)"
          using block_addr_aligned2 3(2) [symmetric] by (rule load_store_other)
        with "1.prems" 3(1) show ?thesis by simp
      qed
    qed
    with "1.IH" [OF True] have
      "\<forall>k<bc - 1. load32 (init_loop buf bs bc (b + 1) ?mem') (block_addr buf bs k) = block_addr buf bs (k + 1)"
      by blast
    moreover have "init_loop buf bs bc b mem = init_loop buf bs bc (b + 1) ?mem'"
      using True by (subst init_loop.simps) simp
    ultimately show ?thesis by simp
  next
    case False
    then have "init_loop buf bs bc b mem = mem"
      by (subst init_loop.simps) simp
    moreover have "k < b" if "k < bc - 1" for k
      using that False by simp
    ultimately show ?thesis using "1.prems" by simp
  qed
qed

lemma init_loop_frame:
  assumes "\<forall>k. b \<le> k \<and> k < bc - 1 \<longrightarrow> \<not> in_word (block_addr buf bs k) x"
  shows "init_loop buf bs bc b mem x = mem x"
  using assms
proof (induction buf bs bc b mem rule: init_loop.induct)
  case (1 buf bs bc b mem)
  show ?case
  proof (cases "b < bc - 1")
    case True
    let ?mem' = "store32 mem (block_addr buf bs b) (block_addr buf bs (b + 1))"
    have "b \<le> b + 1"
      using unat_plus1 [OF True] by (simp add: word_le_nat_alt)
    then have "b \<le> k" if "b + 1 \<le> k" for k
      using that by (rule order_trans)
    then have "\<forall>k. b + 1 \<le> k \<and> k < bc - 1 \<longrightarrow> \<not> in_word (block_addr buf bs k) x"
      using "1.prems" by blast
    with "1.IH" [OF True] have "init_loop buf bs bc (b + 1) ?mem' x = ?mem' x"
      by blast
    moreover have "\<not> in_word (block_addr buf bs b) x"
      using "1.prems" True by auto
    then have "?mem' x = mem x"
      by (rule store32_out)
    moreover have "init_loop buf bs bc b mem = init_loop buf bs bc (b + 1) ?mem'"
      using True by (subst init_loop.simps) simp
    ultimately show ?thesis by simp
  next
    case False
    then show ?thesis by (subst init_loop.simps) simp
  qed
qed

lemma bp_init_spec:
  "buffer (fst (bp_init buf bs bc bp mem)) = buf
   \<and> end_buffer (fst (bp_init buf bs bc bp mem)) = buf + bs * bc
   \<and> block_count (fst (bp_init buf bs bc bp mem)) = bc
   \<and> next_block (fst (bp_init buf bs bc bp mem)) = block_addr buf bs 0
   \<and> free_count (fst (bp_init buf bs bc bp mem)) = bc
   \<and> (\<forall>k. unat k + 1 < unat bc \<longrightarrow>
         load32 (snd (bp_init buf bs bc bp mem)) (block_addr buf bs k) = block_addr buf bs (k + 1))
   \<and> (\<forall>x. (\<forall>k<bc - 1. \<not> in_word (block_addr buf bs k) x) \<longrightarrow>
         snd (bp_init buf bs bc bp mem) x = mem x)"
proof -
  have links: "\<forall>k<bc - 1. load32 (init_loop buf bs bc 0 mem) (block_addr buf bs k) = block_addr buf bs (k + 1)"
    by (rule init_loop_links) simp
  have "k < bc - 1" if "unat k + 1 < unat bc" for k
  proof -
    from that have "bc \<noteq> 0" by auto
    then have "unat (bc - 1) = unat bc - 1" by (rule unat_minus_one)
    with that show ?thesis by (simp add: word_less_nat_alt)
  qed
  with links have "\<forall>k. unat k + 1 < unat bc \<longrightarrow>
      load32 (init_loop buf bs bc 0 mem) (block_addr buf bs k) = block_addr buf bs (k + 1)"
    by blast
  moreover have "\<forall>x. (\<forall>k<bc - 1. \<not> in_word (block_addr buf bs k) x) \<longrightarrow>
      init_loop buf bs bc 0 mem x = mem x"
    by (simp add: init_loop_frame)
  ultimately show ?thesis
    by (simp add: bp_init_def block_addr_0)
qed

lemma bp_alloc_nonempty:
  "free_count bp \<noteq> 0 \<Longrightarrow>
   bp_alloc bp mem = (next_block bp,
     bp\<lparr>next_block := load32 mem (next_block bp), free_count := free_count bp - 1\<rparr>)"
  by (simp add: bp_alloc_def)

lemma bp_alloc_empty: "free_count bp = 0 \<Longrightarrow> bp_alloc bp mem = (0, bp)"
  by (simp add: bp_alloc_def)

lemma alloc_n_chain:
  "n \<le> unat (free_count bp) \<Longrightarrow>
   alloc_n n bp mem =
     (chain mem (next_block bp) n,
      bp\<lparr>next_block := (load32 mem ^^ n) (next_block bp), free_count := free_count bp - of_nat n\<rparr>)"
proof (induction n arbitrary: bp)
  case 0
  then show ?case by simp
next
  case (Suc n)
  then have nz: "free_count bp \<noteq> 0" by auto
  let ?bp' = "bp\<lparr>next_block := load32 mem (next_block bp), free_count := free_count bp - 1\<rparr>"
  have "unat (free_count bp - 1) = unat (free_count bp) - 1"
    using nz by (rule unat_minus_one)
  with Suc.prems have "n \<le> unat (free_count ?bp')" by simp
  from Suc.IH [OF this] show ?case
    by (simp add: bp_alloc_nonempty [OF nz] funpow_swap1)
qed

lemma chain_length [simp]: "length (chain mem p n) = n"
  by (induction n arbitrary: p) simp_all

lemma chain_append:
  "chain mem p (a + b) = chain mem p a @ chain mem ((load32 mem ^^ a) p) b"
  by (induction a arbitrary: p) (simp_all add: funpow_swap1)

lemma chain_cong:
  "(\<And>a. a \<in> set (chain mem p n) \<Longrightarrow> load32 mem' a = load32 mem a) \<Longrightarrow>
   chain mem' p n = chain mem p n"
proof (induction n arbitrary: p)
  case 0
  then show ?case by simp
next
  case (Suc n)
  have "load32 mem' p = load32 mem p" using Suc.prems by simp
  moreover have "chain mem' (load32 mem p) n = chain mem (load32 mem p) n"
    using Suc.prems by (intro Suc.IH) simp
  ultimately show ?case by simp
qed

lemma chain_init:
  fixes bc :: u32
  assumes "\<And>k. unat k + 1 < unat bc \<Longrightarrow> load32 mem (block_addr buf bs k) = block_addr buf bs (k + 1)"
    and "j + n \<le> unat bc"
  shows "chain mem (block_addr buf bs (of_nat j)) n = map (\<lambda>k. block_addr buf bs (of_nat k)) [j..<j + n]"
  using assms(2)
proof (induction n arbitrary: j)
  case 0
  then show ?case by simp
next
  case (Suc n)
  show ?case
  proof (cases n)
    case 0
    then show ?thesis by simp
  next
    case (Suc m)
    have "unat bc < 2 ^ 32" using unsigned_less [of bc] by simp
    with Suc.prems have j: "unat (of_nat j :: u32) = j"
      by (simp add: unat_of_nat)
    with Suc.prems Suc have "unat (of_nat j :: u32) + 1 < unat bc" by simp
    then have "load32 mem (block_addr buf bs (of_nat j)) = block_addr buf bs (of_nat j + 1)"
      by (rule assms(1))
    then have "load32 mem (block_addr buf bs (of_nat j)) = block_addr buf bs (of_nat (Suc j))"
      by (simp add: ac_simps)
    moreover have "chain mem (block_addr buf bs (of_nat (Suc j))) n
        = map (\<lambda>k. block_addr buf bs (of_nat k)) [Suc j..<Suc j + n]"
      using Suc.prems by (intro Suc.IH) simp
    ultimately show ?thesis
      by (simp add: upt_rec [of j])
  qed
qed

lemma unat_add_of_nat:
  fixes w :: u32
  assumes "unat w + m < 2 ^ 32"
  shows "unat (w + of_nat m) = unat w + m"
proof -
  have m: "unat (of_nat m :: u32) = m" using assms by (simp add: unat_of_nat)
  then have "unat w + unat (of_nat m :: u32) < 2 ^ LENGTH(32)" using assms by simp
  then have "unat (w + of_nat m) = unat w + unat (of_nat m :: u32)"
    by (simp only: unat_add_lem)
  with m show ?thesis by simp
qed

lemma drop_bit_2_of_nat: "drop_bit 2 (bs :: u32) = of_nat (unat bs div 4)"
proof -
  have "drop_bit 2 bs = of_nat (unat (drop_bit 2 bs))" by simp
  also have "unat (drop_bit 2 bs) = unat bs div 4"
    by (simp add: drop_bit_eq_div unat_div)
  finally show ?thesis .
qed

lemma block_addr_of_nat:
  "block_addr buf bs (of_nat k) = buf + of_nat (k * (4 * (unat bs div 4)))"
  by (simp add: block_addr_def elem_addr_def drop_bit_2_of_nat)

lemma stride_bounds: "4 \<le> (n::nat) \<Longrightarrow> 4 \<le> 4 * (n div 4) \<and> 4 * (n div 4) \<le> n"
  by presburger

lemma block_addr_unat:
  assumes "4 \<le> unat bs" "unat buf + unat bs * unat bc < 2 ^ 32" "k < unat bc"
  shows "unat (block_addr buf bs (of_nat k)) = unat buf + k * (4 * (unat bs div 4))"
    and "unat buf + k * (4 * (unat bs div 4)) + unat bs \<le> unat buf + unat bs * unat bc"
proof -
  let ?st = "4 * (unat bs div 4)"
  have st: "?st \<le> unat bs" using stride_bounds [OF assms(1)] by simp
  have "Suc k \<le> unat bc" using assms(3) by simp
  then have "Suc k * unat bs \<le> unat bc * unat bs" by (rule mult_le_mono1)
  then have a: "k * unat bs + unat bs \<le> unat bs * unat bc" by (simp add: ac_simps)
  have b: "k * ?st \<le> k * unat bs" using st by (rule mult_le_mono2)
  from a b have le: "k * ?st + unat bs \<le> unat bs * unat bc"
    by (rule_tac order_trans [of _ "k * unat bs + unat bs"]) simp_all
  then show "unat buf + k * ?st + unat bs \<le> unat buf + unat bs * unat bc" by simp
  from le assms(2) have "unat buf + k * ?st < 2 ^ 32" by linarith
  then show "unat (block_addr buf bs (of_nat k)) = unat buf + k * ?st"
    unfolding block_addr_of_nat by (rule unat_add_of_nat)
qed

lemma unat_end_buffer:
  fixes buf bs bc :: u32
  assumes "unat buf + unat bs * unat bc < 2 ^ 32"
  shows "unat (buf + bs * bc) = unat buf + unat bs * unat bc"
proof -
  have "unat bs * unat bc < 2 ^ LENGTH(32)" using assms by simp
  then have m: "unat (bs * bc) = unat bs * unat bc" by (simp only: unat_mult_lem)
  then have "unat buf + unat (bs * bc) < 2 ^ LENGTH(32)" using assms by simp
  then have "unat (buf + bs * bc) = unat buf + unat (bs * bc)" by (simp only: unat_add_lem)
  with m show ?thesis by simp
qed

lemma init_blocks:
  assumes bs: "4 \<le> unat bs" and fit: "unat buf + unat bs * unat bc < 2 ^ 32" and nz: "buf \<noteq> 0"
    and init: "bp_init buf bs bc bp mem = (bp0, mem0)"
    and n: "n \<le> unat bc"
  shows "chain mem0 (next_block bp0) n = map (\<lambda>k. block_addr buf bs (of_nat k)) [0..<n]"
    and "distinct (chain mem0 (next_block bp0) n)"
    and "\<forall>a\<in>set (chain mem0 (next_block bp0) n).
           a \<noteq> 0 \<and> in_range bp0 a \<and> (a - buffer bp0) AND 3 = 0"
proof -
  let ?a = "\<lambda>k. block_addr buf bs (of_nat k)"
  let ?st = "4 * (unat bs div 4)"
  note t = bp_init_spec [where buf = buf and bs = bs and bc = bc and bp = bp and mem = mem]
  have bp0: "buffer bp0 = buf" "end_buffer bp0 = buf + bs * bc" "next_block bp0 = block_addr buf bs 0"
    using t init by simp_all
  have links: "load32 mem0 (block_addr buf bs k) = block_addr buf bs (k + 1)" if "unat k + 1 < unat bc" for k
    using t init that by simp
  have "chain mem0 (block_addr buf bs (of_nat 0)) n = map ?a [0..<0 + n]"
    using links n by (intro chain_init) simp_all
  then show c: "chain mem0 (next_block bp0) n = map ?a [0..<n]"
    by (simp add: bp0)
  have u: "unat (?a k) = unat buf + k * ?st" if "k < n" for k
    using that n by (intro block_addr_unat(1) [OF bs fit]) simp
  have st: "0 < ?st" using stride_bounds [OF bs] by simp
  have "inj_on ?a {0..<n}"
  proof (rule inj_onI)
    fix j k assume jk: "j \<in> {0..<n}" "k \<in> {0..<n}" and eq: "?a j = ?a k"
    from jk have "j < n" "k < n" by simp_all
    from eq have "unat (?a j) = unat (?a k)" by simp
    then have "unat buf + j * ?st = unat buf + k * ?st"
      by (simp only: u [OF \<open>j < n\<close>] u [OF \<open>k < n\<close>])
    then have "j * ?st = k * ?st" by simp
    with st show "j = k" by (simp only: mult_cancel2) simp
  qed
  then show "distinct (chain mem0 (next_block bp0) n)"
    unfolding c by (simp add: distinct_map)
  show "\<forall>a\<in>set (chain mem0 (next_block bp0) n).
           a \<noteq> 0 \<and> in_range bp0 a \<and> (a - buffer bp0) AND 3 = 0"
    unfolding c
  proof
    fix a assume "a \<in> set (map ?a [0..<n])"
    then obtain k where k: "k < n" "a = ?a k" by auto
    have ua: "unat a = unat buf + k * ?st" using k u by simp
    have "0 < unat buf" using nz by (simp add: unat_gt_0)
    with ua have "a \<noteq> 0" by auto
    moreover have "unat a + unat bs \<le> unat buf + unat bs * unat bc"
      using block_addr_unat(2) [OF bs fit, of k] k n ua by simp
    then have "unat a < unat (buf + bs * bc)"
      using bs by (simp add: unat_end_buffer [OF fit])
    then have "in_range bp0 a"
      using ua by (simp add: in_range_def bp0 word_le_nat_alt word_less_nat_alt)
    moreover have "(a - buffer bp0) AND 3 = 0"
      using k by (simp add: bp0 block_addr_aligned)
    ultimately show "a \<noteq> 0 \<and> in_range bp0 a \<and> (a - buffer bp0) AND 3 = 0" by simp
  qed
qed


lemma init_pool_ok:
  assumes "4 \<le> unat bs" and "unat buf + unat bs * unat bc < 2 ^ 32" and "buf \<noteq> 0"
    and "bp_init buf bs bc bp mem = (bp0, mem0)"
  shows "pool_ok bp0 mem0"
proof -
  have fc: "free_count bp0 = bc" "block_count bp0 = bc"
    using assms(4) by (auto simp: bp_init_def)
  note b = init_blocks [OF assms order_refl]
  show ?thesis
    unfolding pool_ok_def free_blocks_def fc list_all_iff using b by simp
qed

lemma block_addr_word_unat:
  assumes "4 \<le> unat bs" "unat buf + unat bs * unat bc < 2 ^ 32" "unat k < unat bc"
  shows "unat (block_addr buf bs k) = unat buf + unat k * (4 * (unat bs div 4))"
    and "unat buf + unat k * (4 * (unat bs div 4)) + unat bs \<le> unat buf + unat bs * unat bc"
  using block_addr_unat [OF assms(1,2), of "unat k"] assms(3) by simp_all

lemma block_addr_inj:
  assumes "4 \<le> unat bs" "unat buf + unat bs * unat bc < 2 ^ 32"
    and "unat j < unat bc" "unat k < unat bc" "block_addr buf bs j = block_addr buf bs k"
  shows "j = k"
proof -
  let ?st = "4 * (unat bs div 4)"
  have st: "0 < ?st" using stride_bounds [OF assms(1)] by simp
  have "unat (block_addr buf bs j) = unat (block_addr buf bs k)"
    using assms(5) by simp
  then have "unat buf + unat j * ?st = unat buf + unat k * ?st"
    by (simp only: block_addr_word_unat(1) [OF assms(1,2,3)] block_addr_word_unat(1) [OF assms(1,2,4)])
  then have "unat j * ?st = unat k * ?st" by simp
  with st have "unat j = unat k" by (simp only: mult_cancel2) simp
  then show ?thesis by (simp add: word_unat_eq_iff)
qed

lemma block_in_range:
  assumes "4 \<le> unat bs" "unat buf + unat bs * unat bc < 2 ^ 32" "unat k < unat bc"
  shows "in_range (fst (bp_init buf bs bc bp mem)) (block_addr buf bs k)"
proof -
  note u = block_addr_word_unat [OF assms]
  have "unat (block_addr buf bs k) < unat (buf + bs * bc)"
    using u assms(1) by (simp add: unat_end_buffer [OF assms(2)])
  then show ?thesis
    using u(1) by (simp add: in_range_def bp_init_def word_le_nat_alt word_less_nat_alt)
qed

lemma link_in_buffer:
  assumes "4 \<le> unat bs" "unat buf + unat bs * unat bc < 2 ^ 32" "unat k < unat bc"
    and "in_word (block_addr buf bs k) x"
  shows "buf \<le> x \<and> x < buf + bs * bc"
proof -
  note u = block_addr_word_unat [OF assms(1,2,3)]
  have "unat (block_addr buf bs k) + 3 < 2 ^ 32"
    using u assms(1,2) by simp
  with assms(4) have "unat (block_addr buf bs k) \<le> unat x \<and> unat x \<le> unat (block_addr buf bs k) + 3"
    by (rule in_word_unat)
  with u assms(1) have "unat buf \<le> unat x \<and> unat x < unat buf + unat bs * unat bc"
    by simp
  then show ?thesis
    by (simp add: word_le_nat_alt word_less_nat_alt unat_end_buffer [OF assms(2)])
qed

text \<open>
  Claim C5, as amended. For at least one block of at least a word, in a buffer
  \<open>[buf, buf + block_size * block_count)\<close> that lies within the address space,
  \<^verbatim>\<open>block_pool::init(block_size, block_count)\<close> takes the backing buffer and threads
  the free list through it: for every \<open>k\<close> in \<open>0 .. block_count - 2\<close> the first word of
  block \<open>k\<close> holds the address of block \<open>k + 1\<close>, the head of the free list is block 0
  and \<open>free_count\<close> equals \<open>block_count\<close>. The blocks are different addresses within
  \<open>[buffer, end_buffer)\<close>, and \<^verbatim>\<open>init\<close> writes no byte but those of the links, which
  all lie in the buffer: the first word of the last block keeps what the fresh buffer
  held, and the pool tells the end of the list by \<open>free_count\<close>.
\<close>

theorem init_threads_free_list:
  assumes "1 \<le> unat bc" and "4 \<le> unat bs" and "unat buf + unat bs * unat bc < 2 ^ 32"
  shows "buffer (fst (bp_init buf bs bc bp mem)) = buf
   \<and> end_buffer (fst (bp_init buf bs bc bp mem)) = buf + bs * bc
   \<and> block_count (fst (bp_init buf bs bc bp mem)) = bc
   \<and> next_block (fst (bp_init buf bs bc bp mem)) = block_addr buf bs 0
   \<and> free_count (fst (bp_init buf bs bc bp mem)) = bc
   \<and> (\<forall>k. unat k + 1 < unat bc \<longrightarrow>
         load32 (snd (bp_init buf bs bc bp mem)) (block_addr buf bs k) = block_addr buf bs (k + 1))
   \<and> load32 (snd (bp_init buf bs bc bp mem)) (block_addr buf bs (bc - 1))
         = load32 mem (block_addr buf bs (bc - 1))
   \<and> (\<forall>x. (\<forall>k. unat k + 1 < unat bc \<longrightarrow> \<not> in_word (block_addr buf bs k) x) \<longrightarrow>
         snd (bp_init buf bs bc bp mem) x = mem x)
   \<and> (\<forall>k x. unat k + 1 < unat bc \<and> in_word (block_addr buf bs k) x \<longrightarrow>
         buf \<le> x \<and> x < buf + bs * bc)
   \<and> (\<forall>k. unat k < unat bc \<longrightarrow> in_range (fst (bp_init buf bs bc bp mem)) (block_addr buf bs k))
   \<and> (\<forall>j k. unat j < unat bc \<and> unat k < unat bc \<and> j \<noteq> k \<longrightarrow>
         block_addr buf bs j \<noteq> block_addr buf bs k)"
proof -
  note t = bp_init_spec [where buf = buf and bs = bs and bc = bc and bp = bp and mem = mem]
  have nz: "bc \<noteq> 0" using assms(1) by auto
  then have m1: "unat (bc - 1) = unat bc - 1" by (rule unat_minus_one)
  have lt: "k < bc - 1 \<longleftrightarrow> unat k + 1 < unat bc" for k
    using m1 assms(1) by (auto simp: word_less_nat_alt)
  have frame: "\<forall>x. (\<forall>k. unat k + 1 < unat bc \<longrightarrow> \<not> in_word (block_addr buf bs k) x) \<longrightarrow>
         snd (bp_init buf bs bc bp mem) x = mem x"
    using t by (simp add: lt)
  have inj: "\<forall>j k. unat j < unat bc \<and> unat k < unat bc \<and> j \<noteq> k \<longrightarrow>
         block_addr buf bs j \<noteq> block_addr buf bs k"
    using block_addr_inj [OF assms(2,3)] by blast
  have last: "unat (bc - 1) < unat bc" using m1 assms(1) by simp
  have keep:
    "load32 (snd (bp_init buf bs bc bp mem)) (block_addr buf bs (bc - 1))
       = load32 mem (block_addr buf bs (bc - 1))"
  proof (rule load32_cong)
    fix x assume x: "in_word (block_addr buf bs (bc - 1)) x"
    have "\<not> in_word (block_addr buf bs k) x" if k: "unat k + 1 < unat bc" for k :: u32
    proof -
      from k have "bc - 1 \<noteq> k" using m1 by auto
      moreover have "unat k < unat bc" using k by simp
      ultimately have "block_addr buf bs (bc - 1) \<noteq> block_addr buf bs k"
        using inj last by blast
      with block_addr_aligned2 show ?thesis
        using x by (rule aligned_apart)
    qed
    with frame show "snd (bp_init buf bs bc bp mem) x = mem x"
      by blast
  qed
  have rng: "\<forall>k. unat k < unat bc \<longrightarrow> in_range (fst (bp_init buf bs bc bp mem)) (block_addr buf bs k)"
    using block_in_range [OF assms(2,3)] by blast
  have inside: "\<forall>k x. unat k + 1 < unat bc \<and> in_word (block_addr buf bs k) x \<longrightarrow>
         buf \<le> x \<and> x < buf + bs * bc"
  proof (intro allI impI)
    fix k x :: u32
    assume a: "unat k + 1 < unat bc \<and> in_word (block_addr buf bs k) x"
    then have k: "unat k < unat bc" and x: "in_word (block_addr buf bs k) x" by simp_all
    show "buf \<le> x \<and> x < buf + bs * bc"
      using assms(2,3) k x by (rule link_in_buffer)
  qed
  from t have
    "buffer (fst (bp_init buf bs bc bp mem)) = buf"
    "end_buffer (fst (bp_init buf bs bc bp mem)) = buf + bs * bc"
    "block_count (fst (bp_init buf bs bc bp mem)) = bc"
    "next_block (fst (bp_init buf bs bc bp mem)) = block_addr buf bs 0"
    "free_count (fst (bp_init buf bs bc bp mem)) = bc"
    "\<forall>k. unat k + 1 < unat bc \<longrightarrow>
         load32 (snd (bp_init buf bs bc bp mem)) (block_addr buf bs k) = block_addr buf bs (k + 1)"
    by simp_all
  with keep frame inside rng inj show ?thesis
    by (intro conjI)
qed

theorem init_threads_free_list_witness:
  "1 \<le> unat (4 :: u32) \<and> 4 \<le> unat (8 :: u32)
   \<and> unat (0x10050 :: u32) + unat (8 :: u32) * unat (4 :: u32) < 2 ^ 32
   \<and> unat (1 :: u32) + 1 < unat (4 :: u32)
   \<and> block_addr 0x10050 8 1 = 0x10058 \<and> block_addr 0x10050 8 (1 + 1) = 0x10060
   \<and> block_addr 0x10050 8 (4 - 1) = 0x10068
   \<and> load32 (snd (bp_init 0x10050 8 4 ex_blank ex_mem)) 0x10058 = 0x10060
   \<and> load32 (snd (bp_init 0x10050 8 4 ex_blank ex_mem)) 0x10068 = 0xDEADBEEF
   \<and> free_count (fst (bp_init 0x10050 8 4 ex_blank ex_mem)) = 4"
proof -
  have a: "block_addr 0x10050 8 1 = 0x10058" "block_addr 0x10050 8 (1 + 1) = 0x10060"
    "block_addr 0x10050 8 (4 - 1) = 0x10068"
    by (simp_all add: block_addr_def elem_addr_def)
  have h: "1 \<le> unat (4 :: u32)" "4 \<le> unat (8 :: u32)"
    "unat (0x10050 :: u32) + unat (8 :: u32) * unat (4 :: u32) < 2 ^ 32"
    by simp_all
  have k: "unat (1 :: u32) + 1 < unat (4 :: u32)"
    by simp
  have e: "load32 ex_mem 0x10068 = 0xDEADBEEF"
    by (simp add: load32_def ex_mem_def)
  note t = init_threads_free_list [OF h, where bp = ex_blank and mem = ex_mem]
  from t have "\<forall>k. unat k + 1 < unat (4 :: u32) \<longrightarrow>
      load32 (snd (bp_init 0x10050 8 4 ex_blank ex_mem)) (block_addr 0x10050 8 k)
        = block_addr 0x10050 8 (k + 1)"
    by (elim conjE)
  with k have "load32 (snd (bp_init 0x10050 8 4 ex_blank ex_mem)) (block_addr 0x10050 8 1)
      = block_addr 0x10050 8 (1 + 1)"
    by blast
  moreover from t have
    "load32 (snd (bp_init 0x10050 8 4 ex_blank ex_mem)) (block_addr 0x10050 8 (4 - 1))
      = load32 ex_mem (block_addr 0x10050 8 (4 - 1))"
    by (elim conjE)
  moreover from t have "free_count (fst (bp_init 0x10050 8 4 ex_blank ex_mem)) = 4"
    by (elim conjE)
  ultimately show ?thesis
    using a h k e by simp
qed


text \<open>
  Claim C5 as stated has the last block's link hold the sentinel. \<^verbatim>\<open>init\<close> never writes
  that word: for two blocks of 16 bytes at \<open>0x10070\<close> the link of the last block, at
  \<open>0x10080\<close>, is \<open>0xDEADBEEF\<close> when the memory held that before, and \<open>0x12345678\<close> when
  it held that.
\<close>

theorem init_leaves_last_link:
  "block_addr 0x10070 16 1 = 0x10080
   \<and> load32 ex_mem 0x10080 = 0xDEADBEEF
   \<and> load32 (snd (bp_init 0x10070 16 2 ex_blank ex_mem)) 0x10080 = 0xDEADBEEF
   \<and> load32 ex_mem_alt 0x10080 = 0x12345678
   \<and> load32 (snd (bp_init 0x10070 16 2 ex_blank ex_mem_alt)) 0x10080 = 0x12345678"
  by (simp add: bp_init_def init_loop.simps block_addr_def elem_addr_def ex_mem_def ex_mem_alt_def
      load32_def store32_def)


text \<open>
  Claim C3. A block pool initialised with \<open>block_count = N\<close>, \<open>N \<ge> 1\<close>, serves the
  first \<open>N\<close> consecutive calls of \<^verbatim>\<open>alloc()\<close>: the \<open>N\<close> pointers are not null, pairwise
  distinct and within \<open>[buffer, end_buffer)\<close>, and call \<open>N + 1\<close> returns null. The blocks
  are at least a word long, as the data model has it, and the buffer
  \<open>[buf, buf + block_size * block_count)\<close> is a region of the address space that does not
  start at the null address.
\<close>

theorem pool_serves_block_count_allocs:
  assumes "1 \<le> unat bc" and "4 \<le> unat bs" and "buf \<noteq> 0"
    and "unat buf + unat bs * unat bc < 2 ^ 32"
    and "bp_init buf bs bc bp mem = (bp0, mem0)"
    and "alloc_n (unat bc) bp0 mem0 = (ps, bp1)"
  shows "length ps = unat bc
    \<and> (\<forall>p\<in>set ps. p \<noteq> 0 \<and> in_range bp0 p)
    \<and> distinct ps
    \<and> ps = map (\<lambda>k. block_addr buf bs (of_nat k)) [0..<unat bc]
    \<and> fst (bp_alloc bp1 mem0) = 0"
proof -
  have fc: "free_count bp0 = bc"
    using assms(5) by (auto simp: bp_init_def)
  then have "alloc_n (unat bc) bp0 mem0 =
     (chain mem0 (next_block bp0) (unat bc),
      bp0\<lparr>next_block := (load32 mem0 ^^ unat bc) (next_block bp0), free_count := free_count bp0 - of_nat (unat bc)\<rparr>)"
    by (intro alloc_n_chain) simp
  with assms(6) fc have ps: "ps = chain mem0 (next_block bp0) (unat bc)" and "free_count bp1 = 0"
    by auto
  note b = init_blocks [OF assms(2,4,3,5) order_refl]
  from \<open>free_count bp1 = 0\<close> have "fst (bp_alloc bp1 mem0) = 0"
    by (simp add: bp_alloc_empty)
  with b show ?thesis unfolding ps by simp
qed


theorem pool_serves_block_count_allocs_witness:
  "1 \<le> unat (4 :: u32) \<and> 4 \<le> unat (8 :: u32) \<and> (0x10050 :: u32) \<noteq> 0
   \<and> unat (0x10050 :: u32) + unat (8 :: u32) * unat (4 :: u32) < 2 ^ 32
   \<and> fst (alloc_n (unat (4 :: u32)) (fst (bp_init 0x10050 8 4 ex_blank ex_mem))
          (snd (bp_init 0x10050 8 4 ex_blank ex_mem)))
       = [0x10050, 0x10058, 0x10060, 0x10068]
   \<and> fst (bp_alloc (snd (alloc_n (unat (4 :: u32)) (fst (bp_init 0x10050 8 4 ex_blank ex_mem))
          (snd (bp_init 0x10050 8 4 ex_blank ex_mem))))
        (snd (bp_init 0x10050 8 4 ex_blank ex_mem))) = 0"
proof -
  let ?i = "bp_init 0x10050 8 4 ex_blank ex_mem"
  let ?r = "alloc_n (unat (4 :: u32)) (fst ?i) (snd ?i)"
  have h: "1 \<le> unat (4 :: u32)" "4 \<le> unat (8 :: u32)" "(0x10050 :: u32) \<noteq> 0"
    "unat (0x10050 :: u32) + unat (8 :: u32) * unat (4 :: u32) < 2 ^ 32"
    by simp_all
  have i: "?i = (fst ?i, snd ?i)" and r: "?r = (fst ?r, snd ?r)"
    by simp_all
  have m: "map (\<lambda>k. block_addr 0x10050 8 (of_nat k)) [0..<unat (4 :: u32)]
      = [0x10050, 0x10058, 0x10060, 0x10068]"
    by (simp add: block_addr_def elem_addr_def upt_conv_Cons)
  show ?thesis
    using h m pool_serves_block_count_allocs [OF h i r] by simp
qed

lemma chain_upd_other:
  assumes "q \<notin> set (chain mem p n)" and "\<forall>a\<in>set (chain mem p n). (q - a) AND 3 = 0"
  shows "chain (store32 mem q v) p n = chain mem p n"
proof (rule chain_cong)
  fix a assume a: "a \<in> set (chain mem p n)"
  with assms have "(q - a) AND 3 = 0" "q \<noteq> a" by auto
  then show "load32 (store32 mem q v) a = load32 mem a"
    by (rule load_store_other)
qed

lemma bp_dealloc_ok:
  "chk \<longrightarrow> free_count bp < block_count bp \<Longrightarrow>
   bp_dealloc chk bp mem p =
     Inr (bp\<lparr>next_block := p, free_count := free_count bp + 1\<rparr>, store32 mem p (next_block bp))"
  by (simp add: bp_dealloc_def)

lemma dealloc_all_chain:
  assumes "distinct qs"
    and "set qs \<inter> set (chain mem (next_block bp) m) = {}"
    and "unat (free_count bp) + length qs \<le> unat (block_count bp)"
    and "\<forall>a\<in>set qs \<union> set (chain mem (next_block bp) m). (a - base) AND 3 = 0"
  shows "\<exists>bp' mem'. dealloc_all chk qs bp mem = Inr (bp', mem')
    \<and> free_count bp' = free_count bp + of_nat (length qs)
    \<and> block_count bp' = block_count bp
    \<and> chain mem' (next_block bp') (length qs + m) = rev qs @ chain mem (next_block bp) m"
  using assms
proof (induction qs arbitrary: bp mem m)
  case Nil
  then show ?case by simp
next
  case (Cons q qs)
  let ?bp1 = "bp\<lparr>next_block := q, free_count := free_count bp + 1\<rparr>"
  let ?mem1 = "store32 mem q (next_block bp)"
  have lt: "free_count bp < block_count bp"
    using Cons.prems(3) by (simp add: word_less_nat_alt)
  have d: "bp_dealloc chk bp mem q = Inr (?bp1, ?mem1)"
    using lt by (simp add: bp_dealloc_ok)
  have fc1: "unat (free_count ?bp1) = unat (free_count bp) + 1"
    using unat_plus1 [OF lt] by simp
  have q: "q \<notin> set (chain mem (next_block bp) m)" "q \<notin> set qs"
    using Cons.prems(1,2) by auto
  have al: "(q - base) AND 3 = 0" "\<forall>a\<in>set (chain mem (next_block bp) m). (a - base) AND 3 = 0"
    "\<forall>a\<in>set qs. (a - base) AND 3 = 0"
    using Cons.prems(4) by simp_all
  have "\<forall>a\<in>set (chain mem (next_block bp) m). (q - a) AND 3 = 0"
    using al(1,2) by (blast intro: aligned_diff)
  with q(1) have "chain ?mem1 (next_block bp) m = chain mem (next_block bp) m"
    by (rule chain_upd_other)
  then have c1: "chain ?mem1 (next_block ?bp1) (Suc m) = q # chain mem (next_block bp) m"
    by (simp add: store32_in)
  have "\<exists>bp' mem'. dealloc_all chk qs ?bp1 ?mem1 = Inr (bp', mem')
    \<and> free_count bp' = free_count ?bp1 + of_nat (length qs)
    \<and> block_count bp' = block_count ?bp1
    \<and> chain mem' (next_block bp') (length qs + Suc m) = rev qs @ chain ?mem1 (next_block ?bp1) (Suc m)"
  proof (rule Cons.IH)
    show "distinct qs" using Cons.prems(1) by simp
    show "set qs \<inter> set (chain ?mem1 (next_block ?bp1) (Suc m)) = {}"
      unfolding c1 using Cons.prems(1,2) by auto
    show "unat (free_count ?bp1) + length qs \<le> unat (block_count ?bp1)"
      using Cons.prems(3) fc1 by simp
    show "\<forall>a\<in>set qs \<union> set (chain ?mem1 (next_block ?bp1) (Suc m)). (a - base) AND 3 = 0"
      unfolding c1 using al by auto
  qed
  then obtain bp' mem' where r: "dealloc_all chk qs ?bp1 ?mem1 = Inr (bp', mem')"
    "free_count bp' = free_count ?bp1 + of_nat (length qs)"
    "block_count bp' = block_count ?bp1"
    "chain mem' (next_block bp') (length qs + Suc m) = rev qs @ chain ?mem1 (next_block ?bp1) (Suc m)"
    by blast
  have "dealloc_all chk (q # qs) bp mem = Inr (bp', mem')"
    using d r(1) by simp
  moreover have "free_count bp' = free_count bp + of_nat (length (q # qs))"
    using r(2) by simp
  moreover have "block_count bp' = block_count bp"
    using r(3) by simp
  moreover have "chain mem' (next_block bp') (length (q # qs) + m) = rev (q # qs) @ chain mem (next_block bp) m"
    using r(4) unfolding c1 by simp
  ultimately show ?case by blast
qed

text \<open>
  Claim C4, as amended. For a block pool in a consistent state and every \<open>k\<close> not
  exceeding its number of free blocks: allocating \<open>k\<close> blocks, freeing those \<open>k\<close> blocks in
  any order and allocating \<open>k\<close> blocks again returns the same set of addresses (in the
  reverse of the order of the frees); \<open>free_count\<close> is back at its value from before the
  allocations after the frees, and at its value from after the allocations after the
  reuse.
\<close>

theorem free_list_reuse:
  assumes ok: "pool_ok bp mem" and k: "k \<le> unat (free_count bp)"
    and run: "alloc_n k bp mem = (ps, bp1)"
    and perm: "mset qs = mset ps"
  shows "\<exists>bp2 mem2 rs bp3.
      dealloc_all chk qs bp1 mem = Inr (bp2, mem2)
    \<and> alloc_n k bp2 mem2 = (rs, bp3)
    \<and> set rs = set ps \<and> rs = rev qs
    \<and> length ps = k \<and> (\<forall>p\<in>set ps. p \<noteq> 0 \<and> in_range bp p) \<and> distinct ps
    \<and> free_count bp1 = free_count bp - of_nat k
    \<and> free_count bp2 = free_count bp
    \<and> free_count bp3 = free_count bp1"
proof -
  define m where "m = unat (free_count bp) - k"
  let ?nb = "next_block bp"
  let ?bp1 = "bp\<lparr>next_block := (load32 mem ^^ k) ?nb, free_count := free_count bp - of_nat k\<rparr>"
  have a1: "alloc_n k bp mem = (chain mem ?nb k, ?bp1)"
    using k by (rule alloc_n_chain)
  with run have ps: "ps = chain mem ?nb k" and bp1: "bp1 = ?bp1" by simp_all
  have km: "unat (free_count bp) = k + m" using k by (simp add: m_def)
  have fl: "free_blocks bp mem = ps @ chain mem (next_block bp1) m"
    unfolding free_blocks_def km ps bp1 by (simp add: chain_append)
  have dist: "distinct ps" "set ps \<inter> set (chain mem (next_block bp1) m) = {}"
    using ok unfolding pool_ok_def fl by auto
  have good: "\<forall>p\<in>set ps. p \<noteq> 0 \<and> in_range bp p"
    using ok unfolding pool_ok_def fl list_all_iff by auto
  have qs: "distinct qs" "set qs = set ps" "length qs = k"
    using perm dist(1) mset_eq_imp_distinct_iff [OF perm] mset_eq_setD [OF perm]
      mset_eq_length [OF perm] ps by simp_all
  have "unat (free_count bp) < 2 ^ 32" using unsigned_less [of "free_count bp"] by simp
  with km have kk: "unat (of_nat k :: u32) = k" by (simp add: unat_of_nat)
  then have "(of_nat k :: u32) \<le> free_count bp" using k by (simp add: word_le_nat_alt)
  then have "unat (free_count bp - of_nat k) = unat (free_count bp) - unat (of_nat k :: u32)"
    by (rule unat_sub)
  with kk km have fc1: "unat (free_count bp1) = m" by (simp add: bp1)
  have bc: "unat (free_count bp) \<le> unat (block_count bp)"
    using ok by (simp add: pool_ok_def word_le_nat_alt)
  have "\<exists>bp' mem'. dealloc_all chk qs bp1 mem = Inr (bp', mem')
    \<and> free_count bp' = free_count bp1 + of_nat (length qs)
    \<and> block_count bp' = block_count bp1
    \<and> chain mem' (next_block bp') (length qs + m) = rev qs @ chain mem (next_block bp1) m"
  proof (rule dealloc_all_chain)
    show "distinct qs" by (rule qs(1))
    show "set qs \<inter> set (chain mem (next_block bp1) m) = {}" using dist(2) qs(2) by simp
    show "unat (free_count bp1) + length qs \<le> unat (block_count bp1)"
      using fc1 qs(3) km bc by (simp add: bp1)
    show "\<forall>a\<in>set qs \<union> set (chain mem (next_block bp1) m). (a - buffer bp) AND 3 = 0"
      using ok qs(2) unfolding pool_ok_def fl list_all_iff by auto
  qed
  then obtain bp2 mem2 where r: "dealloc_all chk qs bp1 mem = Inr (bp2, mem2)"
    "free_count bp2 = free_count bp1 + of_nat (length qs)"
    "chain mem2 (next_block bp2) (length qs + m) = rev qs @ chain mem (next_block bp1) m"
    by blast
  have fc2: "free_count bp2 = free_count bp"
    using r(2) qs(3) by (simp add: bp1)
  let ?bp3 = "bp2\<lparr>next_block := (load32 mem2 ^^ k) (next_block bp2), free_count := free_count bp2 - of_nat k\<rparr>"
  have a2: "alloc_n k bp2 mem2 = (chain mem2 (next_block bp2) k, ?bp3)"
    using k fc2 by (intro alloc_n_chain) simp
  have "chain mem2 (next_block bp2) k @ chain mem2 ((load32 mem2 ^^ k) (next_block bp2)) m
      = rev qs @ chain mem (next_block bp1) m"
    using r(3) qs(3) by (simp add: chain_append)
  then have rs: "chain mem2 (next_block bp2) k = rev qs"
    using qs(3) by simp
  have "set (chain mem2 (next_block bp2) k) = set ps"
    unfolding rs using qs(2) by simp
  moreover have "length ps = k" by (simp add: ps)
  moreover have "free_count bp1 = free_count bp - of_nat k" by (simp add: bp1)
  moreover have "free_count ?bp3 = free_count bp1" by (simp add: fc2 bp1)
  ultimately show ?thesis
    using r(1) a2 rs good dist(1) fc2 by blast
qed

theorem free_list_reuse_witness:
  "pool_ok (fst (bp_init 0x10050 8 4 ex_blank ex_mem)) (snd (bp_init 0x10050 8 4 ex_blank ex_mem))
   \<and> 2 \<le> unat (free_count (fst (bp_init 0x10050 8 4 ex_blank ex_mem)))
   \<and> fst (alloc_n 2 (fst (bp_init 0x10050 8 4 ex_blank ex_mem))
          (snd (bp_init 0x10050 8 4 ex_blank ex_mem))) = [0x10050, 0x10058]
   \<and> mset [0x10050, 0x10058 :: u32] = mset [0x10050, 0x10058]
   \<and> (\<exists>bp2 mem2.
         dealloc_all True [0x10050, 0x10058]
           (snd (alloc_n 2 (fst (bp_init 0x10050 8 4 ex_blank ex_mem))
              (snd (bp_init 0x10050 8 4 ex_blank ex_mem))))
           (snd (bp_init 0x10050 8 4 ex_blank ex_mem)) = Inr (bp2, mem2)
       \<and> fst (alloc_n 2 bp2 mem2) = [0x10058, 0x10050]
       \<and> free_count bp2 = 4)"
proof -
  let ?i = "bp_init 0x10050 8 4 ex_blank ex_mem"
  let ?r = "alloc_n 2 (fst ?i) (snd ?i)"
  have ok: "pool_ok (fst ?i) (snd ?i)"
    by (rule init_pool_ok [where buf = "0x10050" and bs = 8 and bc = 4 and bp = ex_blank and mem = ex_mem])
      simp_all
  have fc: "free_count (fst ?i) = 4"
    by (simp add: bp_init_def)
  then have k: "2 \<le> unat (free_count (fst ?i))"
    by simp
  have "?r = alloc_n (Suc (Suc 0)) (fst ?i) (snd ?i)"
    by (simp only: numeral_2_eq_2)
  then have ps: "fst ?r = [0x10050, 0x10058]"
    by (simp add: bp_init_def bp_alloc_def init_loop.simps block_addr_def
        elem_addr_def case_prod_beta load32_def store32_def)
  then have run: "?r = ([0x10050, 0x10058], snd ?r)"
    by (metis prod.collapse)
  have perm: "mset [0x10050, 0x10058 :: u32] = mset [0x10050, 0x10058]"
    by simp
  from free_list_reuse [OF ok k run perm] obtain bp2 mem2 rs bp3 where
    "dealloc_all True [0x10050, 0x10058] (snd ?r) (snd ?i) = Inr (bp2, mem2)"
    "alloc_n 2 bp2 mem2 = (rs, bp3)" "rs = rev [0x10050, 0x10058]"
    "free_count bp2 = free_count (fst ?i)"
    by blast
  then have "dealloc_all True [0x10050, 0x10058] (snd ?r) (snd ?i) = Inr (bp2, mem2)
       \<and> fst (alloc_n 2 bp2 mem2) = [0x10058, 0x10050] \<and> free_count bp2 = 4"
    using fc by simp
  then show ?thesis
    using ok k ps perm by blast
qed


text \<open>
  Claim C4 as stated has \<open>free_count\<close> return to its pre-free value after the frees. The
  frees raise it: in a pool of two blocks, after one allocation \<open>free_count\<close> is 1, and
  after freeing that block it is 2, the value from before the allocation.
\<close>

theorem free_count_after_frees:
  "fst (alloc_n 1 (fst (bp_init 0x10070 16 2 ex_blank ex_mem))
      (snd (bp_init 0x10070 16 2 ex_blank ex_mem))) = [0x10070]
   \<and> free_count (snd (alloc_n 1 (fst (bp_init 0x10070 16 2 ex_blank ex_mem))
      (snd (bp_init 0x10070 16 2 ex_blank ex_mem)))) = 1
   \<and> free_count (fst (projr (dealloc_all True [0x10070]
        (snd (alloc_n 1 (fst (bp_init 0x10070 16 2 ex_blank ex_mem))
           (snd (bp_init 0x10070 16 2 ex_blank ex_mem))))
        (snd (bp_init 0x10070 16 2 ex_blank ex_mem))))) = 2"
  by (simp add: bp_init_def bp_alloc_def bp_dealloc_def init_loop.simps block_addr_def
      elem_addr_def case_prod_beta load32_def store32_def)

section \<open>The arena allocator\<close>

lemma ps_dealloc_loop_first:
  assumes "unat pool \<le> i" and "i < unat (pool_count ps)"
    and "in_range (pools ps ! i) p"
    and "\<forall>j. unat pool \<le> j \<and> j < i \<longrightarrow> \<not> in_range (pools ps ! j) p"
  shows "ps_dealloc_loop chk ps mem p pool =
     (case bp_dealloc chk (pools ps ! i) mem p of
        Inl e \<Rightarrow> Inl e
      | Inr (bp', mem') \<Rightarrow> Inr (True, ps\<lparr>pools := (pools ps)[i := bp']\<rparr>, mem'))"
  using assms
proof (induction chk ps mem p pool rule: ps_dealloc_loop.induct)
  case (1 chk ps mem p pool)
  have lt: "pool < pool_count ps"
    using "1.prems"(1,2) by (simp add: word_less_nat_alt)
  show ?case
  proof (cases "in_range (pools ps ! unat pool) p")
    case True
    then have e: "i = unat pool"
      using "1.prems"(1,4) by (metis le_neq_implies_less order_refl)
    show ?thesis
      unfolding e using True lt by (subst ps_dealloc_loop.simps) simp
  next
    case False
    then have ne: "unat pool \<noteq> i" using "1.prems"(3) by auto
    have u: "unat (pool + 1) = unat pool + 1" using lt by (rule unat_plus1)
    have "ps_dealloc_loop chk ps mem p (pool + 1) =
     (case bp_dealloc chk (pools ps ! i) mem p of
        Inl e \<Rightarrow> Inl e
      | Inr (bp', mem') \<Rightarrow> Inr (True, ps\<lparr>pools := (pools ps)[i := bp']\<rparr>, mem'))"
    proof (rule "1.IH" [OF lt False])
      show "unat (pool + 1) \<le> i" using u ne "1.prems"(1) by simp
      show "i < unat (pool_count ps)" by (rule "1.prems"(2))
      show "in_range (pools ps ! i) p" by (rule "1.prems"(3))
      show "\<forall>j. unat (pool + 1) \<le> j \<and> j < i \<longrightarrow> \<not> in_range (pools ps ! j) p"
        using "1.prems"(4) u by simp
    qed
    moreover have "ps_dealloc_loop chk ps mem p pool = ps_dealloc_loop chk ps mem p (pool + 1)"
      using lt False by (subst ps_dealloc_loop.simps) simp
    ultimately show ?thesis by simp
  qed
qed

lemma ps_dealloc_loop_none:
  assumes "\<forall>j. unat pool \<le> j \<and> j < unat (pool_count ps) \<longrightarrow> \<not> in_range (pools ps ! j) p"
  shows "ps_dealloc_loop chk ps mem p pool = Inr (False, ps, mem)"
  using assms
proof (induction chk ps mem p pool rule: ps_dealloc_loop.induct)
  case (1 chk ps mem p pool)
  show ?case
  proof (cases "pool < pool_count ps")
    case True
    then have nr: "\<not> in_range (pools ps ! unat pool) p"
      using "1.prems" by (simp add: word_less_nat_alt)
    have u: "unat (pool + 1) = unat pool + 1" using True by (rule unat_plus1)
    have "ps_dealloc_loop chk ps mem p (pool + 1) = Inr (False, ps, mem)"
      using "1.prems" u by (intro "1.IH" [OF True nr]) simp
    moreover have "ps_dealloc_loop chk ps mem p pool = ps_dealloc_loop chk ps mem p (pool + 1)"
      using True nr by (subst ps_dealloc_loop.simps) simp
    ultimately show ?thesis by simp
  next
    case False
    then show ?thesis by (subst ps_dealloc_loop.simps) simp
  qed
qed

lemma released_fp_release: "released (fp_release del st)"
  by (simp add: fp_release_def Let_def)

lemma in_arena_fp_release: "in_arena PoolSize (fp_release del st) p = in_arena PoolSize st p"
  by (simp add: fp_release_def in_arena_def Let_def)

lemma reserve_once:
  assumes "next_free st \<noteq> 0"
  shows "reserve PoolSize ab st =
     Some (if next_free st + ab > frag_buffer st + PoolSize then (0, st)
           else (next_free st, st\<lparr>next_free := next_free st + ab\<rparr>))"
  using assms by (subst reserve.simps) (simp add: cas_next_def Let_def)

lemma ex_set_eval:
  "ex_set = \<lparr>pool_count = 3, pools_addr = 0x10000,
     pools = [\<lparr>block_count = 4, free_count = 4, next_block = 0x10040, buffer = 0x10040, end_buffer = 0x10050\<rparr>,
              \<lparr>block_count = 4, free_count = 4, next_block = 0x10050, buffer = 0x10050, end_buffer = 0x10070\<rparr>,
              \<lparr>block_count = 2, free_count = 2, next_block = 0x10070, buffer = 0x10070, end_buffer = 0x10090\<rparr>]\<rparr>"
  by (simp add: ex_set_def ex_init0_def ex_init1_def ex_init2_def bp_init_def ex_blank_def)

lemma ex_store_eval: "load32 ex_store 0x10050 = 0x10058"
  by (simp add: ex_store_def ex_init0_def ex_init1_def ex_init2_def bp_init_def
      init_loop.simps block_addr_def elem_addr_def load32_def store32_def)

lemma ex_alloc_8:
  "fp_alloc ex_malloc 1024 ex_arena 8 logarithmic =
     Some (0x10050,
       ex_arena\<lparr>pset := ex_set\<lparr>pools := (pools ex_set)
           [1 := \<lparr>block_count = 4, free_count = 3, next_block = 0x10058, buffer = 0x10050, end_buffer = 0x10070\<rparr>]\<rparr>,
         trace_log := [\<lparr>tr_label = '' Log '', tr_bytes = 8, tr_ptr = 0x10050,
                        tr_status = ''succeeded'', tr_note = []\<rparr>]\<rparr>)"
proof -
  have r: "round4 8 = 8" by (simp add: round4_def)
  have i: "integer_log 8 - 2 = 1" by (simp add: integer_log_def bits_set_def)
  have "ps_alloc ex_set ex_store 8 =
      (0x10050, ex_set\<lparr>pools := (pools ex_set)
           [1 := \<lparr>block_count = 4, free_count = 3, next_block = 0x10058, buffer = 0x10050, end_buffer = 0x10070\<rparr>]\<rparr>)"
    unfolding ps_alloc_def r Let_def i
    by (simp add: ex_set_eval bp_alloc_def ex_store_eval)
  then show ?thesis
    by (simp add: fp_alloc_def tier_alloc_def r sys_log_def ex_arena_def Let_def)
qed

lemma ex_busy_eval:
  "ex_busy = \<lparr>frag_buffer = 0x10000, next_free = 0x10090, released = False, debug = True,
      pset = \<lparr>pool_count = 3, pools_addr = 0x10000,
               pools = [\<lparr>block_count = 4, free_count = 4, next_block = 0x10040, buffer = 0x10040, end_buffer = 0x10050\<rparr>,
                        \<lparr>block_count = 4, free_count = 3, next_block = 0x10058, buffer = 0x10050, end_buffer = 0x10070\<rparr>,
                        \<lparr>block_count = 2, free_count = 2, next_block = 0x10070, buffer = 0x10070, end_buffer = 0x10090\<rparr>]\<rparr>,
      store = ex_store, ext_heap = (0x80000000, []),
      trace_log = [\<lparr>tr_label = '' Log '', tr_bytes = 8, tr_ptr = 0x10050,
                     tr_status = ''succeeded'', tr_note = []\<rparr>]\<rparr>"
  by (simp add: ex_busy_def ex_alloc_8) (simp add: ex_arena_def ex_set_eval)

lemma less_3_cases: "j < (3::nat) \<Longrightarrow> j = 0 \<or> j = 1 \<or> j = 2"
  by arith


lemma ex_released_eval:
  "fp_release ex_delete ex_busy = ex_busy\<lparr>released := True\<rparr>"
  by (simp add: fp_release_def ps_release_def delete_pools_def bp_destructor_def ex_delete_def
      Let_def ps_release_loop.simps bp_release_def ex_busy_eval)




lemma tier_alloc_returns:
  assumes "next_free st \<noteq> 0"
  shows "\<exists>p1 st1. tier_alloc PoolSize st ab type = Some (p1, st1)
           \<and> debug st1 = debug st \<and> trace_log st1 = trace_log st"
proof (cases type)
  case logarithmic
  then show ?thesis by (simp add: tier_alloc_def case_prod_beta)
next
  case fixed
  then show ?thesis by (simp add: tier_alloc_def reserve_once [OF assms])
next
  case heap
  then show ?thesis by (simp add: tier_alloc_def)
qed


lemma bp_dealloc_full:
  "chk \<Longrightarrow> \<not> free_count bp < block_count bp \<Longrightarrow> bp_dealloc chk bp mem p = Inl AssertionFailed"
  by (simp add: bp_dealloc_def)

text \<open>
  Claim C2, as amended. Before \<^verbatim>\<open>release()\<close>, \<^verbatim>\<open>fixed_pool::dealloc\<close> of a pointer
  \<open>p\<close>: when \<open>p\<close> lies in the arena's byte range and a block pool's \<^verbatim>\<open>in_range\<close>
  claims it, the first pool that claims it gets \<open>p\<close>. Unless the assertion of
  \<^verbatim>\<open>block_pool::dealloc\<close> is compiled in (\<open>chk\<close>) and fails, \<open>p\<close> goes back on that
  pool's free list (the old head is stored in the four bytes at \<open>p\<close>, \<open>p\<close> becomes the
  head and \<open>free_count\<close> goes up by one) and nothing else changes; with
  \<^verbatim>\<open>assertion(free_count < block_count)\<close> compiled in and the pool full, the call stops
  at the failed assertion. When \<open>p\<close> lies in the arena's byte range and no pool claims
  it, nothing happens at all; when \<open>p\<close> lies outside the arena's byte range it is handed
  to the general heap's \<^verbatim>\<open>free\<close>. The four cases cover every pointer and every state
  in which \<^verbatim>\<open>release()\<close> has not been called.
\<close>

theorem dealloc_routing:
  assumes "\<not> released st"
  shows "(in_arena PoolSize st p \<and> i < unat (pool_count (pset st))
          \<and> in_range (pools (pset st) ! i) p
          \<and> (\<forall>j<i. \<not> in_range (pools (pset st) ! j) p)
          \<and> (chk \<longrightarrow> free_count (pools (pset st) ! i) < block_count (pools (pset st) ! i))
        \<longrightarrow> fp_dealloc chk free PoolSize st p =
              Inr (st\<lparr>pset := (pset st)\<lparr>pools := (pools (pset st))
                          [i := (pools (pset st) ! i)\<lparr>next_block := p,
                                 free_count := free_count (pools (pset st) ! i) + 1\<rparr>]\<rparr>,
                      store := store32 (store st) p (next_block (pools (pset st) ! i))\<rparr>))
    \<and> (in_arena PoolSize st p \<and> i < unat (pool_count (pset st))
          \<and> in_range (pools (pset st) ! i) p
          \<and> (\<forall>j<i. \<not> in_range (pools (pset st) ! j) p)
          \<and> chk \<and> \<not> free_count (pools (pset st) ! i) < block_count (pools (pset st) ! i)
        \<longrightarrow> fp_dealloc chk free PoolSize st p = Inl AssertionFailed)
    \<and> (in_arena PoolSize st p
          \<and> (\<forall>j<unat (pool_count (pset st)). \<not> in_range (pools (pset st) ! j) p)
        \<longrightarrow> fp_dealloc chk free PoolSize st p = Inr st)
    \<and> (\<not> in_arena PoolSize st p
        \<longrightarrow> fp_dealloc chk free PoolSize st p = Inr (st\<lparr>ext_heap := free (ext_heap st) p\<rparr>))"
proof (intro conjI impI)
  assume a: "in_arena PoolSize st p \<and> i < unat (pool_count (pset st))
          \<and> in_range (pools (pset st) ! i) p
          \<and> (\<forall>j<i. \<not> in_range (pools (pset st) ! j) p)
          \<and> (chk \<longrightarrow> free_count (pools (pset st) ! i) < block_count (pools (pset st) ! i))"
  then have "ps_dealloc chk (pset st) (store st) p =
     (case bp_dealloc chk (pools (pset st) ! i) (store st) p of
        Inl e \<Rightarrow> Inl e
      | Inr (bp', mem') \<Rightarrow> Inr (True, (pset st)\<lparr>pools := (pools (pset st))[i := bp']\<rparr>, mem'))"
    unfolding ps_dealloc_def by (intro ps_dealloc_loop_first) simp_all
  with a assms show "fp_dealloc chk free PoolSize st p =
              Inr (st\<lparr>pset := (pset st)\<lparr>pools := (pools (pset st))
                          [i := (pools (pset st) ! i)\<lparr>next_block := p,
                                 free_count := free_count (pools (pset st) ! i) + 1\<rparr>]\<rparr>,
                      store := store32 (store st) p (next_block (pools (pset st) ! i))\<rparr>)"
    by (simp add: fp_dealloc_def bp_dealloc_ok)
next
  assume a: "in_arena PoolSize st p \<and> i < unat (pool_count (pset st))
          \<and> in_range (pools (pset st) ! i) p
          \<and> (\<forall>j<i. \<not> in_range (pools (pset st) ! j) p)
          \<and> chk \<and> \<not> free_count (pools (pset st) ! i) < block_count (pools (pset st) ! i)"
  then have "ps_dealloc chk (pset st) (store st) p =
     (case bp_dealloc chk (pools (pset st) ! i) (store st) p of
        Inl e \<Rightarrow> Inl e
      | Inr (bp', mem') \<Rightarrow> Inr (True, (pset st)\<lparr>pools := (pools (pset st))[i := bp']\<rparr>, mem'))"
    unfolding ps_dealloc_def by (intro ps_dealloc_loop_first) simp_all
  with a assms show "fp_dealloc chk free PoolSize st p = Inl AssertionFailed"
    by (simp add: fp_dealloc_def bp_dealloc_full)
next
  assume a: "in_arena PoolSize st p
          \<and> (\<forall>j<unat (pool_count (pset st)). \<not> in_range (pools (pset st) ! j) p)"
  then have "ps_dealloc chk (pset st) (store st) p = Inr (False, pset st, store st)"
    unfolding ps_dealloc_def by (intro ps_dealloc_loop_none) simp
  with a assms show "fp_dealloc chk free PoolSize st p = Inr st"
    by (simp add: fp_dealloc_def)
next
  assume "\<not> in_arena PoolSize st p"
  then show "fp_dealloc chk free PoolSize st p = Inr (st\<lparr>ext_heap := free (ext_heap st) p\<rparr>)"
    by (simp add: fp_dealloc_def)
qed


theorem dealloc_routing_witness:
  "\<not> released ex_busy
   \<and> in_arena 1024 ex_busy 0x10050 \<and> (1::nat) < unat (pool_count (pset ex_busy))
   \<and> in_range (pools (pset ex_busy) ! 1) 0x10050
   \<and> \<not> in_range (pools (pset ex_busy) ! 0) 0x10050
   \<and> free_count (pools (pset ex_busy) ! 1) < block_count (pools (pset ex_busy) ! 1)
   \<and> fp_dealloc True ex_free 1024 ex_busy 0x10050 =
        Inr (ex_busy\<lparr>pset := (pset ex_busy)\<lparr>pools := (pools (pset ex_busy))
                [1 := \<lparr>block_count = 4, free_count = 4, next_block = 0x10050,
                       buffer = 0x10050, end_buffer = 0x10070\<rparr>]\<rparr>,
              store := store32 (store ex_busy) 0x10050 0x10058\<rparr>)
   \<and> in_arena 1024 ex_busy 0x10052 \<and> in_range (pools (pset ex_busy) ! 1) 0x10052
   \<and> \<not> in_range (pools (pset ex_busy) ! 0) 0x10052
   \<and> fp_dealloc True ex_free 1024 ex_busy 0x10052 =
        Inr (ex_busy\<lparr>pset := (pset ex_busy)\<lparr>pools := (pools (pset ex_busy))
                [1 := \<lparr>block_count = 4, free_count = 4, next_block = 0x10052,
                       buffer = 0x10050, end_buffer = 0x10070\<rparr>]\<rparr>,
              store := store32 (store ex_busy) 0x10052 0x10058\<rparr>)
   \<and> load32 (store ex_busy) 0x10050 = 0x10058
   \<and> load32 (store32 (store ex_busy) 0x10052 0x10058) 0x10050 = 0x00580058
   \<and> load32 (store ex_busy) 0x10054 = 0xDEADBEEF
   \<and> load32 (store32 (store ex_busy) 0x10052 0x10058) 0x10054 = 0xDEAD0001
   \<and> in_arena 1024 ex_busy 0x10040
   \<and> in_range (pools (pset ex_busy) ! 0) 0x10040
   \<and> \<not> free_count (pools (pset ex_busy) ! 0) < block_count (pools (pset ex_busy) ! 0)
   \<and> fp_dealloc True ex_free 1024 ex_busy 0x10040 = Inl AssertionFailed
   \<and> in_arena 1024 ex_busy 0x10200
   \<and> fp_dealloc True ex_free 1024 ex_busy 0x10200 = Inr ex_busy
   \<and> \<not> in_arena 1024 ex_busy 0x80000000
   \<and> fp_dealloc True ex_free 1024 ex_busy 0x80000000
        = Inr (ex_busy\<lparr>ext_heap := (0x80000000, [0x80000000])\<rparr>)"
proof -
  have nr: "\<not> released ex_busy" by (simp add: ex_busy_eval)
  have a: "in_arena 1024 ex_busy 0x10050" "(1::nat) < unat (pool_count (pset ex_busy))"
    "in_range (pools (pset ex_busy) ! 1) 0x10050"
    "\<not> in_range (pools (pset ex_busy) ! 0) 0x10050"
    "free_count (pools (pset ex_busy) ! 1) < block_count (pools (pset ex_busy) ! 1)"
    by (simp_all add: ex_busy_eval in_arena_def in_range_def)
  have u: "in_arena 1024 ex_busy 0x10052" "in_range (pools (pset ex_busy) ! 1) 0x10052"
    "\<not> in_range (pools (pset ex_busy) ! 0) 0x10052"
    by (simp_all add: ex_busy_eval in_arena_def in_range_def)
  have w: "load32 (store ex_busy) 0x10050 = 0x10058"
    "load32 (store32 (store ex_busy) 0x10052 0x10058) 0x10050 = 0x00580058"
    "load32 (store ex_busy) 0x10054 = 0xDEADBEEF"
    "load32 (store32 (store ex_busy) 0x10052 0x10058) 0x10054 = 0xDEAD0001"
    by (simp_all add: ex_busy_eval ex_store_def ex_init0_def ex_init1_def ex_init2_def bp_init_def
        init_loop.simps block_addr_def elem_addr_def load32_def store32_def ex_mem_def)
  have f: "in_arena 1024 ex_busy 0x10040" "(0::nat) < unat (pool_count (pset ex_busy))"
    "in_range (pools (pset ex_busy) ! 0) 0x10040"
    "\<not> free_count (pools (pset ex_busy) ! 0) < block_count (pools (pset ex_busy) ! 0)"
    by (simp_all add: ex_busy_eval in_arena_def in_range_def)
  have b: "in_arena 1024 ex_busy 0x10200"
    "\<forall>j<unat (pool_count (pset ex_busy)). \<not> in_range (pools (pset ex_busy) ! j) 0x10200"
    by (auto simp: ex_busy_eval in_arena_def in_range_def dest!: less_3_cases)
  have c: "\<not> in_arena 1024 ex_busy 0x80000000"
    by (simp add: ex_busy_eval in_arena_def)
  have "fp_dealloc True ex_free 1024 ex_busy 0x10050 =
        Inr (ex_busy\<lparr>pset := (pset ex_busy)\<lparr>pools := (pools (pset ex_busy))
                [1 := (pools (pset ex_busy) ! 1)\<lparr>next_block := 0x10050,
                       free_count := free_count (pools (pset ex_busy) ! 1) + 1\<rparr>]\<rparr>,
              store := store32 (store ex_busy) 0x10050 (next_block (pools (pset ex_busy) ! 1))\<rparr>)"
    using dealloc_routing [OF nr, where PoolSize = 1024 and p = "0x10050" and i = 1
        and chk = True and free = ex_free] a by simp
  moreover have "fp_dealloc True ex_free 1024 ex_busy 0x10052 =
        Inr (ex_busy\<lparr>pset := (pset ex_busy)\<lparr>pools := (pools (pset ex_busy))
                [1 := (pools (pset ex_busy) ! 1)\<lparr>next_block := 0x10052,
                       free_count := free_count (pools (pset ex_busy) ! 1) + 1\<rparr>]\<rparr>,
              store := store32 (store ex_busy) 0x10052 (next_block (pools (pset ex_busy) ! 1))\<rparr>)"
    using dealloc_routing [OF nr, where PoolSize = 1024 and p = "0x10052" and i = 1
        and chk = True and free = ex_free] a u by simp
  moreover have "fp_dealloc True ex_free 1024 ex_busy 0x10040 = Inl AssertionFailed"
    using dealloc_routing [OF nr, where PoolSize = 1024 and p = "0x10040" and i = 0
        and chk = True and free = ex_free] f by simp
  moreover have "fp_dealloc True ex_free 1024 ex_busy 0x10200 = Inr ex_busy"
    using dealloc_routing [OF nr, where PoolSize = 1024 and p = "0x10200" and i = 0
        and chk = True and free = ex_free] b by blast
  moreover have "fp_dealloc True ex_free 1024 ex_busy 0x80000000
        = Inr (ex_busy\<lparr>ext_heap := ex_free (ext_heap ex_busy) 0x80000000\<rparr>)"
    using dealloc_routing [OF nr, where PoolSize = 1024 and p = "0x80000000" and i = 0
        and chk = True and free = ex_free] c by blast
  ultimately show ?thesis
    using nr a b(1) c f u w by (simp add: ex_busy_eval ex_free_def)
qed


text \<open>
  Claim C2 as stated returns every pointer that a pool claims to that pool's free list.
  In the worked arena as initialised no block has been allocated: pool 1 is full, and
  with assertions compiled in \<^verbatim>\<open>dealloc\<close> of its block \<open>0x10050\<close> fails the assertion
  of \<^verbatim>\<open>block_pool::dealloc\<close> instead of putting the block on the free list.
\<close>

theorem dealloc_into_full_pool_aborts:
  "\<not> released ex_arena
   \<and> in_arena 1024 ex_arena 0x10050
   \<and> in_range (pools (pset ex_arena) ! 1) 0x10050
   \<and> free_count (pools (pset ex_arena) ! 1) = 4 \<and> block_count (pools (pset ex_arena) ! 1) = 4
   \<and> fp_dealloc True ex_free 1024 ex_arena 0x10050 = Inl AssertionFailed"
  by (simp add: fp_dealloc_def ps_dealloc_def ps_dealloc_loop.simps bp_dealloc_def
      in_arena_def in_range_def ex_arena_def ex_set_eval)

text \<open>
  Claim C6, as amended. Once \<^verbatim>\<open>release()\<close> has been called, \<^verbatim>\<open>dealloc\<close> of a pointer
  inside the arena's byte range skips the probe of the pool set and does nothing: the
  pointer goes back to no pool's free list, and it is not handed to the general heap's
  \<^verbatim>\<open>free\<close> either.
\<close>

theorem dealloc_after_release:
  "released (fp_release del st)
   \<and> (released st' \<and> in_arena PoolSize st' p \<longrightarrow> fp_dealloc chk free PoolSize st' p = Inr st')
   \<and> (in_arena PoolSize st p \<longrightarrow>
        fp_dealloc chk free PoolSize (fp_release del st) p = Inr (fp_release del st))"
  by (simp add: fp_dealloc_def released_fp_release in_arena_fp_release)


theorem dealloc_after_release_witness:
  "released (fp_release ex_delete ex_busy)
   \<and> in_arena 1024 (fp_release ex_delete ex_busy) 0x10050
   \<and> in_arena 1024 ex_busy 0x10050
   \<and> fp_dealloc True ex_free 1024 (fp_release ex_delete ex_busy) 0x10050
        = Inr (fp_release ex_delete ex_busy)"
proof -
  have a: "in_arena 1024 ex_busy 0x10050"
    by (simp add: ex_busy_eval in_arena_def)
  then have b: "in_arena 1024 (fp_release ex_delete ex_busy) 0x10050"
    by (simp add: in_arena_fp_release)
  show ?thesis
    using a b dealloc_after_release [where del = ex_delete and st = ex_busy
        and st' = "fp_release ex_delete ex_busy" and PoolSize = 1024 and p = "0x10050"
        and chk = True and free = ex_free]
    by blast
qed


text \<open>
  Claim C6 as stated routes such a pointer to the general heap's \<^verbatim>\<open>free\<close>. The
  \<^verbatim>\<open>else free(p)\<close> belongs to the test of the arena's range, not to the test of
  \<^verbatim>\<open>released\<close>: after \<^verbatim>\<open>release()\<close> the block \<open>0x10050\<close> of the worked arena is
  deallocated without a change of state, while \<^verbatim>\<open>free\<close> would have recorded it.
\<close>

theorem released_dealloc_skips_heap_free:
  "in_arena 1024 (fp_release ex_delete ex_busy) 0x10050
   \<and> ext_heap (fp_release ex_delete ex_busy) = (0x80000000, [])
   \<and> fp_dealloc True ex_free 1024 (fp_release ex_delete ex_busy) 0x10050
        = Inr (fp_release ex_delete ex_busy)
   \<and> ex_free (ext_heap (fp_release ex_delete ex_busy)) 0x10050 = (0x80000000, [0x10050])"
  by (simp add: ex_released_eval fp_dealloc_def in_arena_def ex_free_def) (simp add: ex_busy_eval)







text \<open>
  Claim C9, as amended. With diagnostics enabled every call of \<^verbatim>\<open>fixed_pool::alloc\<close>
  (on an arena whose cursor is not null) returns and emits exactly one trace, which
  records the requested strategy, the size as the caller requested it (not the rounded
  size), the resulting address, success or failure, and the fallback note; for a
  size-classed or arena-direct request the note is set exactly when the pool set or the
  arena gave no block and the general heap served the request.
\<close>

theorem alloc_trace:
  assumes "debug st" and "next_free st \<noteq> 0"
  shows "\<exists>p st' t p1 st1.
      fp_alloc malloc PoolSize st bytes type = Some (p, st')
    \<and> trace_log st' = trace_log st @ [t]
    \<and> tr_label t = (case type of logarithmic \<Rightarrow> '' Log '' | fixed \<Rightarrow> ''Fixed'' | heap \<Rightarrow> ''Heap '')
    \<and> tr_bytes t = bytes
    \<and> tr_ptr t = p
    \<and> tr_status t = (if p \<noteq> 0 then ''succeeded'' else ''failed'')
    \<and> tier_alloc PoolSize st (round4 bytes) type = Some (p1, st1)
    \<and> (type \<noteq> heap \<and> p1 = 0 \<longrightarrow>
          tr_note t = ''(fallback on heap)''
          \<and> p = fst (malloc (ext_heap st1) (round4 bytes))
          \<and> ext_heap st' = snd (malloc (ext_heap st1) (round4 bytes)))
    \<and> (type \<noteq> heap \<and> p1 \<noteq> 0 \<longrightarrow>
          tr_note t = [] \<and> p = p1 \<and> ext_heap st' = ext_heap st1)"
proof -
  from tier_alloc_returns [OF assms(2)] obtain p1 st1 where
    t: "tier_alloc PoolSize st (round4 bytes) type = Some (p1, st1)"
      "debug st1 = debug st" "trace_log st1 = trace_log st"
    by blast
  show ?thesis
  proof (cases "heap = type \<or> p1 = 0")
    case True
    let ?m = "malloc (ext_heap st1) (round4 bytes)"
    let ?t = "\<lparr>tr_label = (case type of logarithmic \<Rightarrow> '' Log '' | fixed \<Rightarrow> ''Fixed'' | heap \<Rightarrow> ''Heap ''),
               tr_bytes = bytes, tr_ptr = fst ?m,
               tr_status = (if fst ?m \<noteq> 0 then ''succeeded'' else ''failed''),
               tr_note = (if p1 = 0 then ''(fallback on heap)'' else [])\<rparr>"
    have "fp_alloc malloc PoolSize st bytes type =
        Some (fst ?m, st1\<lparr>ext_heap := snd ?m, trace_log := trace_log st @ [?t]\<rparr>)"
      using True t assms(1)
      by (cases type) (auto simp: fp_alloc_def sys_log_def Let_def case_prod_beta)
    with True t(1) show ?thesis
      by (intro exI [of _ "fst ?m"] exI [of _ "st1\<lparr>ext_heap := snd ?m, trace_log := trace_log st @ [?t]\<rparr>"]
          exI [of _ ?t] exI [of _ p1] exI [of _ st1]) auto
  next
    case False
    let ?t = "\<lparr>tr_label = (case type of logarithmic \<Rightarrow> '' Log '' | fixed \<Rightarrow> ''Fixed'' | heap \<Rightarrow> ''Heap ''),
               tr_bytes = bytes, tr_ptr = p1,
               tr_status = ''succeeded'', tr_note = []\<rparr>"
    have "fp_alloc malloc PoolSize st bytes type =
        Some (p1, st1\<lparr>trace_log := trace_log st @ [?t]\<rparr>)"
      using False t assms(1)
      by (cases type) (auto simp: fp_alloc_def sys_log_def Let_def case_prod_beta)
    with False t(1) show ?thesis
      by (intro exI [of _ p1] exI [of _ "st1\<lparr>trace_log := trace_log st @ [?t]\<rparr>"]
          exI [of _ ?t] exI [of _ p1] exI [of _ st1]) auto
  qed
qed


theorem alloc_trace_witness:
  "debug ex_arena \<and> next_free ex_arena \<noteq> 0
   \<and> map_option (trace_log \<circ> snd) (fp_alloc ex_malloc 1024 ex_arena 8 logarithmic)
       = Some [\<lparr>tr_label = '' Log '', tr_bytes = 8, tr_ptr = 0x10050,
                 tr_status = ''succeeded'', tr_note = []\<rparr>]"
proof -
  have h: "debug ex_arena" "next_free ex_arena \<noteq> 0"
    by (simp_all add: ex_arena_def)
  show ?thesis
    using h alloc_trace [OF h, of ex_malloc 1024 8 logarithmic]
    by (simp add: ex_alloc_8)
qed


text \<open>
  Claim C9 as stated has the trace record the rounded size. The trace is passed
  \<^verbatim>\<open>bytes\<close>, not \<^verbatim>\<open>alloc_bytes\<close>: a heap request of 5 bytes, rounded to 8, is traced
  with size 5 (and with the fallback note, although the heap was what the caller asked
  for).
\<close>

theorem trace_records_requested_size:
  "round4 5 = 8
   \<and> map_option (trace_log \<circ> snd) (fp_alloc ex_malloc 1024 ex_arena 5 heap)
       = Some [\<lparr>tr_label = ''Heap '', tr_bytes = 5, tr_ptr = 0x80000000,
                 tr_status = ''succeeded'', tr_note = ''(fallback on heap)''\<rparr>]"
proof -
  have r: "round4 5 = 8" by (simp add: round4_def)
  show ?thesis
    unfolding fp_alloc_def r Let_def
    by (simp add: tier_alloc_def sys_log_def ex_malloc_def ex_arena_def r)
qed

section \<open>Concurrent arena-direct allocation\<close>

lemma filter_count_update:
  "i < length xs \<Longrightarrow>
   length (filter P (xs[i := y])) + (if P (xs ! i) then 1 else 0)
     = length (filter P xs) + (if P y then 1 else 0)"
proof (induction xs arbitrary: i)
  case Nil
  then show ?case by simp
next
  case (Cons a xs)
  show ?case
  proof (cases i)
    case 0
    then show ?thesis by simp
  next
    case (Suc m)
    with Cons.prems have "m < length xs" by simp
    from Cons.IH [OF this] Suc show ?thesis by simp
  qed
qed

lemma served_count_update:
  "i < length cs \<Longrightarrow>
   served_count (cs[i := c]) + (if is_served (cs ! i) then 1 else 0)
     = served_count cs + (if is_served c then 1 else 0)"
  unfolding served_count_def by (rule filter_count_update)

lemma served_count_less:
  "i < length cs \<Longrightarrow> \<not> is_served (cs ! i) \<Longrightarrow> served_count cs < length cs"
  unfolding served_count_def by (rule length_filter_less [of "cs ! i"]) simp_all

lemma unfinished_update:
  "i < length cs \<Longrightarrow>
   unfinished (cs[i := c]) + (if finished (cs ! i) then 0 else 1)
     = unfinished cs + (if finished c then 0 else 1)"
  unfolding unfinished_def
  using filter_count_update [of i cs "\<lambda>c. \<not> finished c" c] by (auto split: if_splits)

lemma weight_sum_update:
  "i < length cs \<Longrightarrow>
   sum_list (map f (cs[i := c])) + f (cs ! i) = sum_list (map f cs) + (f c :: nat)"
proof (induction cs arbitrary: i)
  case Nil
  then show ?case by simp
next
  case (Cons a cs)
  then show ?case by (cases i) auto
qed

lemma update_not_served:
  assumes "\<not> is_served c" and "cs[i := c] ! j = Served p" and "i < length cs"
  shows "cs ! j = Served p \<and> j \<noteq> i"
proof (cases "j = i")
  case True
  with assms show ?thesis by auto
next
  case False
  with assms show ?thesis by simp
qed

lemma unat_arena_end:
  fixes fb PoolSize :: u32
  assumes "unat fb + unat PoolSize < 2 ^ 32"
  shows "unat (fb + PoolSize) = unat fb + unat PoolSize"
proof -
  have "unat fb + unat PoolSize < 2 ^ LENGTH(32)" using assms by simp
  then show ?thesis by (simp only: unat_add_lem)
qed

lemma bump_step_cases:
  assumes c0: "c0 \<noteq> 0"
    and room: "unat c0 + n * unat ab \<le> unat fb + unat PoolSize"
    and top: "unat fb + unat PoolSize < 2 ^ 32"
    and inv: "bump_inv c0 ab n s"
    and st: "sys_step fb PoolSize ab s s'"
  obtains (read) nxt cs i where "s = (nxt, cs)" "i < length cs" "cs ! i = Reading"
      "s' = (nxt, cs[i := Swapping nxt])"
    | (stale) nxt cs i cr where "s = (nxt, cs)" "i < length cs" "cs ! i = Swapping cr"
      "cr \<noteq> nxt" "s' = (nxt, cs[i := Reading])"
    | (swap) nxt cs i where "s = (nxt, cs)" "i < length cs" "cs ! i = Swapping nxt"
      "nxt \<noteq> 0" "unat (nxt + ab) = unat nxt + unat ab" "s' = (nxt + ab, cs[i := Served nxt])"
proof -
  from st obtain nxt cs i nxt' c' where
    s: "s = (nxt, cs)" "s' = (nxt', cs[i := c'])" and i: "i < length cs"
    and cst: "caller_step fb PoolSize ab nxt (cs ! i) = Some (nxt', c')"
    by cases auto
  from inv s have len: "length cs = n"
    and cur: "unat nxt = unat c0 + served_count cs * unat ab"
    by (auto simp: bump_inv_def)
  have ns: "\<not> is_served (cs ! i)"
    using cst by (cases "cs ! i") simp_all
  then have "served_count cs < n"
    using i len served_count_less by blast
  then have "Suc (served_count cs) * unat ab \<le> n * unat ab"
    by (intro mult_le_mono1) simp
  with cur room have fit: "unat nxt + unat ab \<le> unat fb + unat PoolSize"
    by simp
  with top have "unat nxt + unat ab < 2 ^ LENGTH(32)" by simp
  then have nowrap: "unat (nxt + ab) = unat nxt + unat ab"
    by (simp only: unat_add_lem)
  have fits: "\<not> nxt + ab > fb + PoolSize"
    using fit by (simp add: word_less_nat_alt nowrap unat_arena_end [OF top])
  have "0 < unat c0" using c0 by (simp add: unat_gt_0)
  with cur have nz: "nxt \<noteq> 0" by auto
  consider "cs ! i = Reading" "nxt' = nxt" "c' = Swapping nxt"
    | cr where "cs ! i = Swapping cr" "cr \<noteq> nxt" "nxt' = nxt" "c' = Reading"
    | "cs ! i = Swapping nxt" "nxt' = nxt + ab" "c' = Served nxt"
    using cst fits nz by (cases "cs ! i") (auto split: if_splits)
  then show thesis
  proof cases
    case 1
    with s i show ?thesis by (intro read [of nxt cs i]) simp_all
  next
    case 2
    with s i show ?thesis by (intro stale [of nxt cs i cr]) simp_all
  next
    case 3
    with s i nz nowrap show ?thesis by (intro swap [of nxt cs i]) simp_all
  qed
qed

lemma bump_inv_step:
  assumes c0: "c0 \<noteq> 0"
    and room: "unat c0 + n * unat ab \<le> unat fb + unat PoolSize"
    and top: "unat fb + unat PoolSize < 2 ^ 32"
    and inv: "bump_inv c0 ab n s"
    and st: "sys_step fb PoolSize ab s s'"
  shows "bump_inv c0 ab n s'"
  using c0 room top inv st
proof (cases rule: bump_step_cases)
  case (read nxt cs i)
  from inv read(1) have len: "length cs = n"
    and cur: "unat nxt = unat c0 + served_count cs * unat ab"
    and nex: "Exhausted \<notin> set cs"
    and sv: "\<And>j p. j < n \<Longrightarrow> cs ! j = Served p \<Longrightarrow>
        p \<noteq> 0 \<and> unat c0 \<le> unat p \<and> unat p + unat ab \<le> unat nxt"
    and dj: "\<And>j k p q. j < n \<Longrightarrow> k < n \<Longrightarrow> j \<noteq> k \<Longrightarrow> cs ! j = Served p \<Longrightarrow> cs ! k = Served q \<Longrightarrow>
        unat p + unat ab \<le> unat q \<or> unat q + unat ab \<le> unat p"
    by (auto simp: bump_inv_def)
  have k: "served_count (cs[i := Swapping nxt]) = served_count cs"
    using served_count_update [OF read(2), of "Swapping nxt"] read(3) by simp
  have nsc: "\<not> is_served (Swapping nxt)" by simp
  have "Exhausted \<notin> set (cs[i := Swapping nxt])"
    using nex set_update_subset_insert [of cs i "Swapping nxt"] by auto
  then show ?thesis
    unfolding bump_inv_def read(4)
    using len cur k sv dj update_not_served [OF nsc _ read(2)]
    by (auto simp del: nth_list_update)
next
  case (stale nxt cs i cr)
  from inv stale(1) have len: "length cs = n"
    and cur: "unat nxt = unat c0 + served_count cs * unat ab"
    and nex: "Exhausted \<notin> set cs"
    and sv: "\<And>j p. j < n \<Longrightarrow> cs ! j = Served p \<Longrightarrow>
        p \<noteq> 0 \<and> unat c0 \<le> unat p \<and> unat p + unat ab \<le> unat nxt"
    and dj: "\<And>j k p q. j < n \<Longrightarrow> k < n \<Longrightarrow> j \<noteq> k \<Longrightarrow> cs ! j = Served p \<Longrightarrow> cs ! k = Served q \<Longrightarrow>
        unat p + unat ab \<le> unat q \<or> unat q + unat ab \<le> unat p"
    by (auto simp: bump_inv_def)
  have k: "served_count (cs[i := Reading]) = served_count cs"
    using served_count_update [OF stale(2), of Reading] stale(3) by simp
  have nsc: "\<not> is_served Reading" by simp
  have "Exhausted \<notin> set (cs[i := Reading])"
    using nex set_update_subset_insert [of cs i Reading] by auto
  then show ?thesis
    unfolding bump_inv_def stale(5)
    using len cur k sv dj update_not_served [OF nsc _ stale(2)]
    by (auto simp del: nth_list_update)
next
  case (swap nxt cs i)
  let ?cs' = "cs[i := Served nxt]"
  from inv swap(1) have len: "length cs = n"
    and cur: "unat nxt = unat c0 + served_count cs * unat ab"
    and nex: "Exhausted \<notin> set cs"
    and sv: "\<And>j p. j < n \<Longrightarrow> cs ! j = Served p \<Longrightarrow>
        p \<noteq> 0 \<and> unat c0 \<le> unat p \<and> unat p + unat ab \<le> unat nxt"
    and dj: "\<And>j k p q. j < n \<Longrightarrow> k < n \<Longrightarrow> j \<noteq> k \<Longrightarrow> cs ! j = Served p \<Longrightarrow> cs ! k = Served q \<Longrightarrow>
        unat p + unat ab \<le> unat q \<or> unat q + unat ab \<le> unat p"
    by (auto simp: bump_inv_def)
  note i = swap(2) and nz = swap(4) and nowrap = swap(5)
  have k: "served_count ?cs' = Suc (served_count cs)"
    using served_count_update [OF i, of "Served nxt"] swap(3) by simp
  have ex: "Exhausted \<notin> set ?cs'"
    using nex set_update_subset_insert [of cs i "Served nxt"] by auto
  have a: "unat (nxt + ab) = unat c0 + served_count ?cs' * unat ab"
    using cur k nowrap by simp
  have le: "unat nxt \<le> unat (nxt + ab)" using nowrap by simp
  have b: "p \<noteq> 0 \<and> unat c0 \<le> unat p \<and> unat p + unat ab \<le> unat (nxt + ab)"
    if "j < n" "?cs' ! j = Served p" for j p
  proof (cases "j = i")
    case True
    with that i have "p = nxt" by simp
    with nz cur nowrap show ?thesis by simp
  next
    case False
    with that have "cs ! j = Served p" by simp
    from sv [OF that(1) this] le show ?thesis by simp
  qed
  have old: "unat p + unat ab \<le> unat nxt" if "j < n" "j \<noteq> i" "?cs' ! j = Served p" for j p
  proof -
    from that have "cs ! j = Served p" by simp
    from sv [OF that(1) this] show ?thesis by simp
  qed
  have c: "unat p + unat ab \<le> unat q \<or> unat q + unat ab \<le> unat p"
    if h: "j < n" "k < n" "j \<noteq> k" "?cs' ! j = Served p" "?cs' ! k = Served q" for j k p q
  proof -
    consider "j = i" "k \<noteq> i" | "k = i" "j \<noteq> i" | "j \<noteq> i" "k \<noteq> i"
      using h(3) by blast
    then show ?thesis
    proof cases
      case 1
      with h i have "p = nxt" by simp
      with old [OF h(2) 1(2) h(5)] show ?thesis by simp
    next
      case 2
      with h i have "q = nxt" by simp
      with old [OF h(1) 2(2) h(4)] show ?thesis by simp
    next
      case 3
      with h have "cs ! j = Served p" "cs ! k = Served q" by simp_all
      from dj [OF h(1,2,3) this] show ?thesis .
    qed
  qed
  show ?thesis
    unfolding bump_inv_def swap(6) using len ex a b c by simp
qed

lemma effort_decreases:
  assumes c0: "c0 \<noteq> 0"
    and room: "unat c0 + n * unat ab \<le> unat fb + unat PoolSize"
    and top: "unat fb + unat PoolSize < 2 ^ 32"
    and inv: "bump_inv c0 ab n s"
    and st: "sys_step fb PoolSize ab s s'"
  shows "(effort s', effort s) \<in> less_than <*lex*> less_than"
  using c0 room top inv st
proof (cases rule: bump_step_cases)
  case (read nxt cs i)
  have "unfinished (cs[i := Swapping nxt]) = unfinished cs"
    using unfinished_update [OF read(2), of "Swapping nxt"] read(3) by simp
  moreover have "sum_list (map (weight nxt) (cs[i := Swapping nxt])) < sum_list (map (weight nxt) cs)"
    using weight_sum_update [OF read(2), of "weight nxt" "Swapping nxt"] read(3) by simp
  ultimately show ?thesis
    by (simp add: effort_def read(1,4))
next
  case (stale nxt cs i cr)
  have "unfinished (cs[i := Reading]) = unfinished cs"
    using unfinished_update [OF stale(2), of Reading] stale(3) by simp
  moreover have "sum_list (map (weight nxt) (cs[i := Reading])) < sum_list (map (weight nxt) cs)"
    using weight_sum_update [OF stale(2), of "weight nxt" Reading] stale(3,4) by simp
  ultimately show ?thesis
    by (simp add: effort_def stale(1,5))
next
  case (swap nxt cs i)
  have "unfinished (cs[i := Served nxt]) < unfinished cs"
    using unfinished_update [OF swap(2), of "Served nxt"] swap(3) by simp
  then show ?thesis
    by (simp add: effort_def swap(1,6))
qed

lemma bump_inv_wf:
  assumes "c0 \<noteq> 0" and "unat c0 + n * unat ab \<le> unat fb + unat PoolSize"
    and "unat fb + unat PoolSize < 2 ^ 32"
  shows "wf {(s', s). bump_inv c0 ab n s \<and> sys_step fb PoolSize ab s s'}"
proof (rule wf_subset)
  show "wf (inv_image (less_than <*lex*> less_than) effort)"
    by (intro wf_inv_image wf_lex_prod wf_less_than)
  show "{(s', s). bump_inv c0 ab n s \<and> sys_step fb PoolSize ab s s'}
      \<subseteq> inv_image (less_than <*lex*> less_than) effort"
    using effort_decreases [OF assms] by (auto simp: inv_image_def)
qed

lemma bump_inv_init:
  assumes "unat c0 + n * unat ab \<le> unat fb + unat PoolSize" and "fb \<le> c0"
  shows "bump_inv c0 ab n (c0, replicate n (enter PoolSize ab))"
proof (cases n)
  case 0
  then show ?thesis by (simp add: bump_inv_def served_count_def)
next
  case (Suc m)
  have "unat ab \<le> n * unat ab" using Suc by simp
  moreover have "unat fb \<le> unat c0" using assms(2) by (simp add: word_le_nat_alt)
  ultimately have "unat ab \<le> unat PoolSize" using assms(1) by linarith
  then have "enter PoolSize ab = Reading"
    by (simp add: enter_def word_le_nat_alt)
  then show ?thesis
    by (simp add: bump_inv_def served_count_def)
qed

lemma bump_inv_reach:
  assumes "c0 \<noteq> 0" and "unat c0 + n * unat ab \<le> unat fb + unat PoolSize"
    and "unat fb + unat PoolSize < 2 ^ 32" and "fb \<le> c0"
    and "(sys_step fb PoolSize ab)\<^sup>*\<^sup>* (c0, replicate n (enter PoolSize ab)) s"
  shows "bump_inv c0 ab n s"
  using assms(5)
proof (induction rule: rtranclp_induct)
  case base
  show ?case using assms(2,4) by (rule bump_inv_init)
next
  case (step s s')
  from assms(1,2,3) step.IH step.hyps(2) show ?case by (rule bump_inv_step)
qed

lemma finished_served:
  assumes "bump_inv c0 ab n (nxt, cs)" and "list_all finished cs"
  shows "served_count cs = n" and "\<And>i. i < n \<Longrightarrow> \<exists>p. cs ! i = Served p"
proof -
  from assms(1) have len: "length cs = n" and nex: "Exhausted \<notin> set cs"
    by (auto simp: bump_inv_def)
  have all: "is_served c" if "c \<in> set cs" for c
  proof -
    from that assms(2) have "finished c" by (simp add: list_all_iff)
    moreover from that nex have "c \<noteq> Exhausted" by auto
    ultimately show ?thesis by (cases c) simp_all
  qed
  then have "filter is_served cs = cs" by (simp add: filter_id_conv)
  then show "served_count cs = n" using len by (simp add: served_count_def)
  show "\<exists>p. cs ! i = Served p" if "i < n" for i
  proof -
    from that len have "cs ! i \<in> set cs" by simp
    then have "is_served (cs ! i)" by (rule all)
    then show ?thesis by (cases "cs ! i") simp_all
  qed
qed

lemma unfinished_can_step:
  assumes "\<not> list_all finished cs"
  shows "\<exists>s'. sys_step fb PoolSize ab (nxt, cs) s'"
proof -
  from assms obtain i where i: "i < length cs" "\<not> finished (cs ! i)"
    by (auto simp: list_all_iff in_set_conv_nth)
  then have "caller_step fb PoolSize ab nxt (cs ! i) \<noteq> None"
    by (cases "cs ! i") simp_all
  then obtain nxt' c' where "caller_step fb PoolSize ab nxt (cs ! i) = Some (nxt', c')"
    by (cases "caller_step fb PoolSize ab nxt (cs ! i)") auto
  with i(1) have "sys_step fb PoolSize ab (nxt, cs) (nxt', cs[i := c'])"
    by (rule sys_step.step)
  then show ?thesis by blast
qed

lemma sys_stepI:
  "i < length cs \<Longrightarrow> caller_step fb PoolSize ab nxt (cs ! i) = Some (nxt', c')
   \<Longrightarrow> cs' = cs[i := c'] \<Longrightarrow> sys_step fb PoolSize ab (nxt, cs) (nxt', cs')"
  by (simp add: sys_step.step)

lemma bump_no_infinite_run:
  assumes "c0 \<noteq> 0" and "unat c0 + n * unat ab \<le> unat fb + unat PoolSize"
    and "unat fb + unat PoolSize < 2 ^ 32" and "fb \<le> c0"
  shows "\<not> (\<exists>run. run 0 = (c0, replicate n (enter PoolSize ab))
            \<and> (\<forall>k. sys_step fb PoolSize ab (run k) (run (Suc k))))"
proof
  assume "\<exists>run. run 0 = (c0, replicate n (enter PoolSize ab))
            \<and> (\<forall>k. sys_step fb PoolSize ab (run k) (run (Suc k)))"
  then obtain run where r0: "run 0 = (c0, replicate n (enter PoolSize ab))"
    and rs: "\<And>k. sys_step fb PoolSize ab (run k) (run (Suc k))"
    by blast
  have inv: "bump_inv c0 ab n (run k)" for k
  proof (induction k)
    case 0
    show ?case unfolding r0 using assms(2,4) by (rule bump_inv_init)
  next
    case (Suc k)
    from assms(1,2,3) Suc rs [of k] show ?case by (rule bump_inv_step)
  qed
  have "\<forall>k. (run (Suc k), run k) \<in> {(s', s). bump_inv c0 ab n s \<and> sys_step fb PoolSize ab s s'}"
    using inv rs by simp
  moreover have "wf {(s', s). bump_inv c0 ab n s \<and> sys_step fb PoolSize ab s s'}"
    using assms(1,2,3) by (rule bump_inv_wf)
  ultimately show False
    unfolding wf_iff_no_infinite_down_chain by blast
qed

text \<open>
  With one caller alone the steps of the interleaving model are those of the loop
  \<open>reserve\<close>.
\<close>

lemma single_caller_run:
  assumes "next_free st \<noteq> 0"
  shows "next_free st + ab > frag_buffer st + PoolSize \<Longrightarrow>
           reserve PoolSize ab st = Some (0, st)
           \<and> (sys_step (frag_buffer st) PoolSize ab)\<^sup>*\<^sup>*
                 (next_free st, [Reading]) (next_free st, [Exhausted])"
    and "\<not> next_free st + ab > frag_buffer st + PoolSize \<Longrightarrow>
           reserve PoolSize ab st = Some (next_free st, st\<lparr>next_free := next_free st + ab\<rparr>)
           \<and> (sys_step (frag_buffer st) PoolSize ab)\<^sup>*\<^sup>*
                 (next_free st, [Reading]) (next_free st + ab, [Served (next_free st)])"
proof -
  assume big: "next_free st + ab > frag_buffer st + PoolSize"
  have "sys_step (frag_buffer st) PoolSize ab (next_free st, [Reading]) (next_free st, [Exhausted])"
    using big by (intro sys_stepI [of 0]) simp_all
  with big show "reserve PoolSize ab st = Some (0, st)
           \<and> (sys_step (frag_buffer st) PoolSize ab)\<^sup>*\<^sup>*
                 (next_free st, [Reading]) (next_free st, [Exhausted])"
    by (simp add: reserve_once [OF assms])
next
  assume fits: "\<not> next_free st + ab > frag_buffer st + PoolSize"
  have 1: "sys_step (frag_buffer st) PoolSize ab (next_free st, [Reading])
      (next_free st, [Swapping (next_free st)])"
    using fits by (intro sys_stepI [of 0]) simp_all
  have 2: "sys_step (frag_buffer st) PoolSize ab (next_free st, [Swapping (next_free st)])
      (next_free st + ab, [Served (next_free st)])"
    using assms by (intro sys_stepI [of 0]) auto
  from 1 2 have "(sys_step (frag_buffer st) PoolSize ab)\<^sup>*\<^sup>*
      (next_free st, [Reading]) (next_free st + ab, [Served (next_free st)])"
    by (meson rtranclp.rtrancl_into_rtrancl rtranclp.rtrancl_refl)
  with fits show "reserve PoolSize ab st = Some (next_free st, st\<lparr>next_free := next_free st + ab\<rparr>)
           \<and> (sys_step (frag_buffer st) PoolSize ab)\<^sup>*\<^sup>*
                 (next_free st, [Reading]) (next_free st + ab, [Served (next_free st)])"
    by (simp add: reserve_once [OF assms])
qed

text \<open>
  Claim C8, as amended. \<open>n\<close> callers are in the arena-direct path at the same time, each
  asking for \<open>b\<close> bytes, which the allocator rounds to \<open>round4 b\<close>; the arena
  \<open>[fb, fb + PoolSize)\<close> does not wrap around the address space, the cursor starts at
  \<open>c0\<close> inside it, not null, and \<open>n\<close> times the rounded size fits between \<open>c0\<close> and the
  end of the arena. Reads of \<^verbatim>\<open>next\<close> and compare-and-swaps are atomic and happen in some
  order. Then, whatever the interleaving: no run goes on for ever; as long as a caller
  has not finished a step is possible; and once all callers have finished, every one of
  them has been served from the arena with a pointer that is not null, the ranges
  \<open>[p, p + round4 b)\<close> of different callers do not overlap, and the cursor is at \<open>c0\<close> plus
  \<open>n\<close> times the rounded size.
\<close>

theorem concurrent_arena_allocation:
  assumes "c0 \<noteq> 0" and "fb \<le> c0" and "unat fb + unat PoolSize < 2 ^ 32"
    and "unat c0 + n * unat (round4 b) \<le> unat fb + unat PoolSize"
  shows "\<not> (\<exists>run. run 0 = (c0, replicate n (enter PoolSize (round4 b)))
            \<and> (\<forall>k. sys_step fb PoolSize (round4 b) (run k) (run (Suc k))))
    \<and> (\<forall>nxt cs. (sys_step fb PoolSize (round4 b))\<^sup>*\<^sup>*
                    (c0, replicate n (enter PoolSize (round4 b))) (nxt, cs) \<longrightarrow>
          (\<not> list_all finished cs \<longrightarrow> (\<exists>s'. sys_step fb PoolSize (round4 b) (nxt, cs) s'))
        \<and> (list_all finished cs \<longrightarrow>
              length cs = n
            \<and> unat nxt = unat c0 + n * unat (round4 b)
            \<and> (\<forall>i<n. \<exists>p. cs ! i = Served p \<and> p \<noteq> 0 \<and> unat c0 \<le> unat p
                    \<and> unat p + unat (round4 b) \<le> unat nxt)
            \<and> (\<forall>i<n. \<forall>j<n. \<forall>p q. i \<noteq> j \<and> cs ! i = Served p \<and> cs ! j = Served q \<longrightarrow>
                  unat p + unat (round4 b) \<le> unat q \<or> unat q + unat (round4 b) \<le> unat p)))"
proof -
  have fin_runs: "\<not> (\<exists>run. run 0 = (c0, replicate n (enter PoolSize (round4 b)))
            \<and> (\<forall>k. sys_step fb PoolSize (round4 b) (run k) (run (Suc k))))"
    using assms(1,4,3,2) by (rule bump_no_infinite_run)
  have live: "\<exists>s'. sys_step fb PoolSize (round4 b) (nxt, cs) s'"
    if "\<not> list_all finished cs" for nxt cs
    using that by (rule unfinished_can_step)
  have safe: "length cs = n
            \<and> unat nxt = unat c0 + n * unat (round4 b)
            \<and> (\<forall>i<n. \<exists>p. cs ! i = Served p \<and> p \<noteq> 0 \<and> unat c0 \<le> unat p
                    \<and> unat p + unat (round4 b) \<le> unat nxt)
            \<and> (\<forall>i<n. \<forall>j<n. \<forall>p q. i \<noteq> j \<and> cs ! i = Served p \<and> cs ! j = Served q \<longrightarrow>
                  unat p + unat (round4 b) \<le> unat q \<or> unat q + unat (round4 b) \<le> unat p)"
    if reach: "(sys_step fb PoolSize (round4 b))\<^sup>*\<^sup>*
      (c0, replicate n (enter PoolSize (round4 b))) (nxt, cs)"
      and fin: "list_all finished cs" for nxt cs
  proof -
    from assms(1,4,3,2) reach have inv: "bump_inv c0 (round4 b) n (nxt, cs)"
      by (rule bump_inv_reach)
    note f = finished_served [OF inv fin]
    from inv have 1: "length cs = n" by (simp add: bump_inv_def)
    from inv f(1) have 2: "unat nxt = unat c0 + n * unat (round4 b)"
      by (simp add: bump_inv_def)
    have 3: "\<forall>i<n. \<exists>p. cs ! i = Served p \<and> p \<noteq> 0 \<and> unat c0 \<le> unat p
          \<and> unat p + unat (round4 b) \<le> unat nxt"
    proof (intro allI impI)
      fix i assume i: "i < n"
      from f(2) [OF i] obtain p where p: "cs ! i = Served p" by blast
      from inv i p have "p \<noteq> 0 \<and> unat c0 \<le> unat p \<and> unat p + unat (round4 b) \<le> unat nxt"
        by (auto simp: bump_inv_def)
      with p show "\<exists>p. cs ! i = Served p \<and> p \<noteq> 0 \<and> unat c0 \<le> unat p
          \<and> unat p + unat (round4 b) \<le> unat nxt"
        by blast
    qed
    have 4: "\<forall>i<n. \<forall>j<n. \<forall>p q. i \<noteq> j \<and> cs ! i = Served p \<and> cs ! j = Served q \<longrightarrow>
        unat p + unat (round4 b) \<le> unat q \<or> unat q + unat (round4 b) \<le> unat p"
      using inv unfolding bump_inv_def by simp
    from 1 2 3 4 show ?thesis by (intro conjI)
  qed
  show ?thesis
  proof (rule conjI [OF fin_runs], intro allI impI)
    fix nxt cs
    assume r: "(sys_step fb PoolSize (round4 b))\<^sup>*\<^sup>*
      (c0, replicate n (enter PoolSize (round4 b))) (nxt, cs)"
    show "(\<not> list_all finished cs \<longrightarrow> (\<exists>s'. sys_step fb PoolSize (round4 b) (nxt, cs) s'))
        \<and> (list_all finished cs \<longrightarrow>
              length cs = n
            \<and> unat nxt = unat c0 + n * unat (round4 b)
            \<and> (\<forall>i<n. \<exists>p. cs ! i = Served p \<and> p \<noteq> 0 \<and> unat c0 \<le> unat p
                    \<and> unat p + unat (round4 b) \<le> unat nxt)
            \<and> (\<forall>i<n. \<forall>j<n. \<forall>p q. i \<noteq> j \<and> cs ! i = Served p \<and> cs ! j = Served q \<longrightarrow>
                  unat p + unat (round4 b) \<le> unat q \<or> unat q + unat (round4 b) \<le> unat p))"
    proof (rule conjI)
      show "\<not> list_all finished cs \<longrightarrow> (\<exists>s'. sys_step fb PoolSize (round4 b) (nxt, cs) s')"
        by (rule impI) (rule live)
      show "list_all finished cs \<longrightarrow>
              length cs = n
            \<and> unat nxt = unat c0 + n * unat (round4 b)
            \<and> (\<forall>i<n. \<exists>p. cs ! i = Served p \<and> p \<noteq> 0 \<and> unat c0 \<le> unat p
                    \<and> unat p + unat (round4 b) \<le> unat nxt)
            \<and> (\<forall>i<n. \<forall>j<n. \<forall>p q. i \<noteq> j \<and> cs ! i = Served p \<and> cs ! j = Served q \<longrightarrow>
                  unat p + unat (round4 b) \<le> unat q \<or> unat q + unat (round4 b) \<le> unat p)"
        by (rule impI) (rule safe [OF r])
    qed
  qed
qed

theorem concurrent_arena_allocation_witness:
  "(0x20000 :: u32) \<noteq> 0 \<and> (0x20000 :: u32) \<le> 0x20000
   \<and> unat (0x20000 :: u32) + unat (16 :: u32) < 2 ^ 32
   \<and> unat (0x20000 :: u32) + 2 * unat (round4 6) \<le> unat (0x20000 :: u32) + unat (16 :: u32)
   \<and> (sys_step 0x20000 16 (round4 6))\<^sup>*\<^sup>*
        (0x20000, replicate 2 (enter 16 (round4 6))) (0x20010, [Served 0x20008, Served 0x20000])
   \<and> list_all finished [Served 0x20008, Served 0x20000]
   \<and> unat (0x20010 :: u32) = unat (0x20000 :: u32) + 2 * unat (round4 6)"
proof -
  have r: "round4 6 = 8" by (simp add: round4_def)
  have h: "(0x20000 :: u32) \<noteq> 0" "(0x20000 :: u32) \<le> 0x20000"
    "unat (0x20000 :: u32) + unat (16 :: u32) < 2 ^ 32"
    "unat (0x20000 :: u32) + 2 * unat (round4 6) \<le> unat (0x20000 :: u32) + unat (16 :: u32)"
    by (simp_all add: r)
  have "replicate 2 c = [c, c]" for c :: caller
    by (simp add: numeral_2_eq_2)
  then have s0: "replicate 2 (enter 16 8) = [Reading, Reading]"
    by (simp add: enter_def)
  have 1: "sys_step 0x20000 16 8 (0x20000, [Reading, Reading]) (0x20000, [Swapping 0x20000, Reading])"
    by (rule sys_stepI [of 0]) simp_all
  have 2: "sys_step 0x20000 16 8 (0x20000, [Swapping 0x20000, Reading])
      (0x20000, [Swapping 0x20000, Swapping 0x20000])"
    by (rule sys_stepI [of 1]) simp_all
  have 3: "sys_step 0x20000 16 8 (0x20000, [Swapping 0x20000, Swapping 0x20000])
      (0x20008, [Swapping 0x20000, Served 0x20000])"
    by (rule sys_stepI [of 1]) simp_all
  have 4: "sys_step 0x20000 16 8 (0x20008, [Swapping 0x20000, Served 0x20000])
      (0x20008, [Reading, Served 0x20000])"
    by (rule sys_stepI [of 0]) simp_all
  have 5: "sys_step 0x20000 16 8 (0x20008, [Reading, Served 0x20000])
      (0x20008, [Swapping 0x20008, Served 0x20000])"
    by (rule sys_stepI [of 0]) simp_all
  have 6: "sys_step 0x20000 16 8 (0x20008, [Swapping 0x20008, Served 0x20000])
      (0x20010, [Served 0x20008, Served 0x20000])"
    by (rule sys_stepI [of 0]) simp_all
  have reach: "(sys_step 0x20000 16 (round4 6))\<^sup>*\<^sup>*
        (0x20000, replicate 2 (enter 16 (round4 6))) (0x20010, [Served 0x20008, Served 0x20000])"
    unfolding r s0 using 1 2 3 4 5 6 by (meson rtranclp.rtrancl_into_rtrancl rtranclp.rtrancl_refl)
  have fin: "list_all finished [Served 0x20008, Served 0x20000]"
    by simp
  from concurrent_arena_allocation [OF h] reach fin
  have "unat (0x20010 :: u32) = unat (0x20000 :: u32) + 2 * unat (round4 6)"
    by blast
  with h reach fin show ?thesis by blast
qed



text \<open>
  Claim C8 as stated has the cursor advance by \<open>b\<close> per call. It advances by the rounded
  size: one call for 5 bytes on an arena of 16 bytes moves the cursor from \<open>0x20000\<close> to
  \<open>0x20008\<close>, in \<^verbatim>\<open>fixed_pool::alloc\<close> run alone and in the only interleaving of one
  caller alike.
\<close>

theorem bump_advances_by_rounded_size:
  "next_free ex_small = 0x20000
   \<and> 1 * unat (5 :: u32) \<le> unat (16 :: u32)
   \<and> map_option fst (fp_alloc ex_malloc 16 ex_small 5 fixed) = Some 0x20000
   \<and> map_option (next_free \<circ> snd) (fp_alloc ex_malloc 16 ex_small 5 fixed) = Some 0x20008
   \<and> (sys_step 0x20000 16 (round4 5))\<^sup>*\<^sup>*
        (0x20000, replicate 1 (enter 16 (round4 5))) (0x20008, [Served 0x20000])"
proof -
  have r: "round4 5 = 8" by (simp add: round4_def)
  have n: "next_free ex_small \<noteq> 0" by (simp add: ex_small_def)
  have a: "fp_alloc ex_malloc 16 ex_small 5 fixed
      = Some (0x20000, sys_log (ex_small\<lparr>next_free := 0x20008\<rparr>) ''Fixed'' 5 0x20000 ''succeeded'' [])"
    unfolding fp_alloc_def r Let_def tier_alloc_def
    by (simp add: reserve_once [OF n]) (simp add: ex_small_def sys_log_def)
  have 1: "sys_step 0x20000 16 8 (0x20000, [Reading]) (0x20000, [Swapping 0x20000])"
    by (rule sys_stepI [of 0]) simp_all
  have 2: "sys_step 0x20000 16 8 (0x20000, [Swapping 0x20000]) (0x20008, [Served 0x20000])"
    by (rule sys_stepI [of 0]) simp_all
  have "(sys_step 0x20000 16 8)\<^sup>*\<^sup>* (0x20000, [Reading]) (0x20008, [Served 0x20000])"
    using 1 2 by (meson rtranclp.rtrancl_into_rtrancl rtranclp.rtrancl_refl)
  then have reach: "(sys_step 0x20000 16 (round4 5))\<^sup>*\<^sup>*
        (0x20000, replicate 1 (enter 16 (round4 5))) (0x20008, [Served 0x20000])"
    unfolding r by (simp add: enter_def)
  have n0: "next_free ex_small = 0x20000"
    by (simp add: ex_small_def)
  have f1: "map_option fst (fp_alloc ex_malloc 16 ex_small 5 fixed) = Some 0x20000"
    by (simp add: a)
  have f2: "map_option (next_free \<circ> snd) (fp_alloc ex_malloc 16 ex_small 5 fixed) = Some 0x20008"
    by (simp add: a sys_log_def)
  from n0 f1 f2 reach show ?thesis
    by (intro conjI) simp_all
qed

end
